theory Spec2Isabelle
  imports Main
begin

section \<open>The document: an element tree with attribute and text stores\<close>

text \<open>
  Elements are known by identity (a natural number). The element tree of the document is a
  rose tree of identities; the attributes the script reads (\<open>id\<close>, \<open>data-column-id\<close>,
  \<open>data-can-drag\<close>, \<open>data-task-id\<close>, \<open>data-column-count\<close>) and the text it writes
  are stores indexed by identity, so that an element keeps them wherever it is moved.
\<close>

type_synonym node = nat

datatype tree = Node (nid: node) (kids: "tree list")

text \<open>
  A JavaScript value, as far as the script looks at it: whether it is \<open>undefined\<close>,
  whether it is truthy, and its string conversion. \<open>Zero\<close> is the number 0;
  \<open>Other s\<close> is any other value that is not a string, a boolean, \<open>null\<close> or
  \<open>undefined\<close>: a number other than 0, an object or an array. It is truthy, and \<open>s\<close>
  is its string conversion, whatever notation the engine gives the number.
\<close>

datatype jsval = Undefined | Null | Bool bool | Zero | Str string | Other string

text \<open>
  What ends a handler early. The first three are exceptions of the DOM. \<open>Unmodelled\<close>
  marks a call whose selector leaves the part of CSS read here: what the engine does with
  it is not determined by the embedding.
\<close>

datatype dom_error = HierarchyRequestError | NotFoundError | SyntaxError | Unmodelled

record request =
  req_method :: string
  req_url :: string
  req_headers :: "(string \<times> string) list"
  req_body :: string

record page =
  doc :: tree
  body :: node
  el_id :: "node \<Rightarrow> string option"
  data_column_id :: "node \<Rightarrow> string option"
  data_can_drag :: "node \<Rightarrow> string option"
  data_task_id :: "node \<Rightarrow> string option"
  data_column_count :: "node \<Rightarrow> string option"
  textContent :: "node \<Rightarrow> string"
  body_classes :: "string list"
  draggedElement :: "node option"
  originalColumn :: "node option"
  originalIndex :: "nat option"
  sortables :: "(node \<times> string \<times> string) list"
  requests :: "request list"
  toasts :: "(node \<times> string \<times> string) list"
  timers :: "(nat \<times> node) list"
  next_node :: node

record event =
  evt_item :: node
  evt_from :: node
  evt_to :: node
  oldIndex :: nat
  newIndex :: nat

text \<open>
  A handler returns the page it leaves, or what stopped it together with the page as it
  was at that moment.
\<close>

type_synonym result = "(dom_error \<times> page) + page"

text \<open>
  How the awaited request turns out: \<open>fetch\<close> rejects (with the message of the error),
  the body does not parse (with the message of the parser's error), the body is \<open>null\<close>
  (with the message of the TypeError that reading \<open>ok\<close> of \<open>null\<close> throws, which the
  engine chooses), or the body is any other value, given by its properties: a number, a
  string, a boolean or an array has none of \<open>ok\<close>, \<open>error\<close>, \<open>from_count\<close>,
  \<open>to_count\<close> and is \<open>Parsed []\<close>.
\<close>

datatype outcome =
    Rejected string
  | Unparsable string
  | ParsedNull string
  | Parsed "(string \<times> jsval) list"

subsection \<open>Tree primitives\<close>

fun subtrees :: "tree \<Rightarrow> tree list" where
  "subtrees (Node n ks) = Node n ks # concat (map subtrees ks)"

definition find_node :: "tree \<Rightarrow> node \<Rightarrow> tree option" where
  "find_node t n = find (\<lambda>x. nid x = n) (subtrees t)"

definition subtree_of :: "tree \<Rightarrow> node \<Rightarrow> tree" where
  "subtree_of t n = (case find_node t n of Some x \<Rightarrow> x | None \<Rightarrow> Node n [])"

definition children :: "tree \<Rightarrow> node \<Rightarrow> node list" where
  "children t n = map nid (kids (subtree_of t n))"

definition descendants :: "tree \<Rightarrow> node \<Rightarrow> node list" where
  "descendants t n = map nid (concat (map subtrees (kids (subtree_of t n))))"

definition elements :: "tree \<Rightarrow> node list" where
  "elements t = map nid (subtrees t)"

fun detach :: "node \<Rightarrow> tree \<Rightarrow> tree" where
  "detach d (Node n ks) = Node n (map (detach d) (filter (\<lambda>k. nid k \<noteq> d) ks))"

fun edit_kids :: "node \<Rightarrow> (tree list \<Rightarrow> tree list) \<Rightarrow> tree \<Rightarrow> tree" where
  "edit_kids p f (Node n ks) =
     (if n = p then Node n (f (map (edit_kids p f) ks)) else Node n (map (edit_kids p f) ks))"

fun insert_kid :: "tree \<Rightarrow> node option \<Rightarrow> tree list \<Rightarrow> tree list" where
  "insert_kid d None ks = ks @ [d]"
| "insert_kid d (Some r) ks =
     takeWhile (\<lambda>k. nid k \<noteq> r) ks @ d # dropWhile (\<lambda>k. nid k \<noteq> r) ks"

definition next_sibling :: "node list \<Rightarrow> node \<Rightarrow> node option" where
  "next_sibling xs d = (case dropWhile (\<lambda>x. x \<noteq> d) xs of _ # y # _ \<Rightarrow> Some y | _ \<Rightarrow> None)"

text \<open>
  \<open>parent.insertBefore(node, child)\<close>: refused with HierarchyRequestError when \<open>node\<close>
  contains \<open>parent\<close>, with NotFoundError when \<open>child\<close> is not a child of \<open>parent\<close>; a
  \<open>child\<close> that is \<open>node\<close> itself stands for its next sibling; \<open>node\<close> leaves its old
  place before it is put in.
\<close>

definition insertBefore :: "node \<Rightarrow> node \<Rightarrow> node option \<Rightarrow> tree \<Rightarrow> dom_error + tree" where
  "insertBefore p d r t =
     (let sub = subtree_of t d in
      if p \<in> set (map nid (subtrees sub)) then Inl HierarchyRequestError
      else if (case r of None \<Rightarrow> False | Some c \<Rightarrow> c \<notin> set (children t p)) then Inl NotFoundError
      else let r' = (if r = Some d then next_sibling (children t p) d else r)
           in Inr (edit_kids p (insert_kid sub r') (detach d t)))"

definition appendChild :: "node \<Rightarrow> node \<Rightarrow> tree \<Rightarrow> dom_error + tree" where
  "appendChild p d t = insertBefore p d None t"

subsection \<open>Strings of JavaScript values\<close>

fun show_nat :: "nat \<Rightarrow> string" where
  "show_nat n =
     (if n < 10 then [''0123456789'' ! n]
      else show_nat (n div 10) @ [''0123456789'' ! (n mod 10)])"

declare show_nat.simps [simp del]

fun js_string :: "jsval \<Rightarrow> string" where
  "js_string Undefined = ''undefined''"
| "js_string Null = ''null''"
| "js_string (Bool b) = (if b then ''true'' else ''false'')"
| "js_string Zero = ''0''"
| "js_string (Str s) = s"
| "js_string (Other s) = s"

fun truthy :: "jsval \<Rightarrow> bool" where
  "truthy Undefined = False"
| "truthy Null = False"
| "truthy (Bool b) = b"
| "truthy Zero = False"
| "truthy (Str s) = (s \<noteq> [])"
| "truthy (Other s) = True"

definition dataset :: "string option \<Rightarrow> jsval" where
  "dataset a = (case a of None \<Rightarrow> Undefined | Some s \<Rightarrow> Str s)"

definition get_prop :: "(string \<times> jsval) list \<Rightarrow> string \<Rightarrow> jsval" where
  "get_prop fs k = (case map_of fs k of None \<Rightarrow> Undefined | Some v \<Rightarrow> v)"

text \<open>The \<open>textContent\<close> setter: \<open>null\<close> and \<open>undefined\<close> give the empty text.\<close>

fun text_of :: "jsval \<Rightarrow> string" where
  "text_of Undefined = []"
| "text_of Null = []"
| "text_of v = js_string v"

text \<open>The \<open>length\<close> of a node list, as a JavaScript value.\<close>

definition count_value :: "nat \<Rightarrow> jsval" where
  "count_value n = (if n = 0 then Zero else Other (show_nat n))"

subsection \<open>The quoted value of an attribute selector\<close>

text \<open>
  The script writes the column id between the double quotes of
  \<open>[data-column-count="..."]\<close> as it is. The engine reads what stands there as a CSS
  string: a backslash escapes the next character, or introduces up to six hexadecimal
  digits and one optional white space, or continues the line; a line break makes the
  selector invalid; a double quote ends the string, and the selector is then valid only if
  what follows completes it. \<open>css_scan\<close> gives the value the id denotes (\<open>Value\<close>),
  \<open>Bad\<close> where the selector is certainly invalid, and \<open>Beyond\<close> where the embedding
  does not decide: an id that ends its string early and goes on with something other than
  a letter, an escape of the closing quote, a NUL, or an escaped code point outside ASCII.
\<close>

datatype css_value = Value string | Bad | Beyond

datatype scan = Normal | Esc | Hex nat nat | SawCR

fun position :: "char \<Rightarrow> string \<Rightarrow> nat option" where
  "position c [] = None"
| "position c (x # xs) = (if c = x then Some 0 else map_option Suc (position c xs))"

definition is_hex :: "char \<Rightarrow> bool" where
  "is_hex c = (position c ''0123456789abcdefABCDEF'' \<noteq> None)"

definition hex_val :: "char \<Rightarrow> nat" where
  "hex_val c =
     (case position c ''0123456789abcdef'' of
        Some i \<Rightarrow> i
      | None \<Rightarrow> (case position c ''ABCDEF'' of Some i \<Rightarrow> 10 + i | None \<Rightarrow> 0))"

definition is_newline :: "char \<Rightarrow> bool" where
  "is_newline c = (c = CHR 0x0A \<or> c = CHR 0x0D \<or> c = CHR 0x0C)"

definition emit :: "char \<Rightarrow> css_value \<Rightarrow> css_value" where
  "emit c r = (case r of Value v \<Rightarrow> Value (c # v) | Bad \<Rightarrow> Bad | Beyond \<Rightarrow> Beyond)"

definition emit_code :: "nat \<Rightarrow> css_value \<Rightarrow> css_value" where
  "emit_code v r = (if 0 < v \<and> v < 128 then emit (char_of v) r else Beyond)"

text \<open>
  After the double quote that ends the string early: nothing of the id left, or a letter
  that cannot begin the modifier \<open>i\<close> or \<open>s\<close>, and the selector is invalid.
\<close>

definition closed :: "string \<Rightarrow> css_value" where
  "closed cs =
     (case cs of
        [] \<Rightarrow> Bad
      | c # _ \<Rightarrow>
          if position c ''abcdefghjklmnopqrtuvwxyzABCDEFGHJKLMNOPQRTUVWXYZ'' \<noteq> None
          then Bad else Beyond)"

text \<open>
  The state in which the next character is read: a run of hexadecimal digits ends before
  a character that is neither a digit (of at most six) nor white space, and gives its
  code point; a line feed after a carriage return belongs to it.
\<close>

definition settle :: "scan \<Rightarrow> char \<Rightarrow> nat option \<times> scan" where
  "settle st c =
     (case st of
        Hex k v \<Rightarrow>
          if (is_hex c \<and> k < 6) \<or> c = CHR 0x20 \<or> c = CHR 0x09 \<or> is_newline c
          then (None, Hex k v) else (Some v, Normal)
      | SawCR \<Rightarrow> if c = CHR 0x0A then (None, SawCR) else (None, Normal)
      | _ \<Rightarrow> (None, st))"

fun css_scan :: "scan \<Rightarrow> string \<Rightarrow> css_value" where
  "css_scan Normal [] = Value []"
| "css_scan Esc [] = Beyond"
| "css_scan (Hex k v) [] = emit_code v (Value [])"
| "css_scan SawCR [] = Value []"
| "css_scan st (c # cs) =
     (let (out, st') = settle st c;
          r = (case st' of
                 Normal \<Rightarrow>
                   if c = CHR 0x22 then closed cs
                   else if is_newline c then Bad
                   else if c = CHR 0x00 then Beyond
                   else if c = CHR 0x5C then css_scan Esc cs
                   else emit c (css_scan Normal cs)
               | SawCR \<Rightarrow> css_scan Normal cs
               | Esc \<Rightarrow>
                   if c = CHR 0x0D then css_scan SawCR cs
                   else if is_newline c then css_scan Normal cs
                   else if c = CHR 0x00 then Beyond
                   else if is_hex c then css_scan (Hex 1 (hex_val c)) cs
                   else emit c (css_scan Normal cs)
               | Hex k v \<Rightarrow>
                   if is_hex c \<and> k < 6 then css_scan (Hex (Suc k) (16 * v + hex_val c)) cs
                   else if c = CHR 0x0D then emit_code v (css_scan SawCR cs)
                   else emit_code v (css_scan Normal cs))
      in case out of None \<Rightarrow> r | Some v \<Rightarrow> emit_code v r)"

definition css_string :: "string \<Rightarrow> css_value" where
  "css_string x = css_scan Normal x"

definition css_plain :: "string \<Rightarrow> bool" where
  "css_plain x =
     (CHR 0x22 \<notin> set x \<and> CHR 0x5C \<notin> set x \<and> CHR 0x0A \<notin> set x \<and> CHR 0x0D \<notin> set x \<and>
      CHR 0x0C \<notin> set x \<and> CHR 0x00 \<notin> set x)"

subsection \<open>Badges\<close>

text \<open>
  A valid selector is a predicate on elements: \<open>[data-column-count="..."]\<close> holds of the
  elements whose attribute is the value the quoted text denotes, \<open>[data-task-id]\<close> of
  those that have the attribute. \<open>querySelector\<close> gives the first match in document
  order, \<open>querySelectorAll\<close> on an element the matches among its descendants.
\<close>

definition querySelector :: "page \<Rightarrow> (node \<Rightarrow> bool) \<Rightarrow> node option" where
  "querySelector s P = find P (elements (doc s))"

definition querySelectorAll :: "page \<Rightarrow> node \<Rightarrow> (node \<Rightarrow> bool) \<Rightarrow> node list" where
  "querySelectorAll s n P = filter P (descendants (doc s) n)"

text \<open>
  Assigning \<open>textContent\<close> replaces whatever the element holds by the text: its child
  elements leave the tree.
\<close>

definition set_textContent :: "node \<Rightarrow> jsval \<Rightarrow> page \<Rightarrow> page" where
  "set_textContent b v s =
     s\<lparr>doc := edit_kids b (\<lambda>_. []) (doc s), textContent := (textContent s)(b := text_of v)\<rparr>"

definition updateBadgeCount :: "jsval \<Rightarrow> jsval \<Rightarrow> page \<Rightarrow> result" where
  "updateBadgeCount columnId count s =
     (case css_string (js_string columnId) of
        Bad \<Rightarrow> Inl (SyntaxError, s)
      | Beyond \<Rightarrow> Inl (Unmodelled, s)
      | Value v \<Rightarrow>
          (case querySelector s (\<lambda>n. data_column_count s n = Some v) of
             None \<Rightarrow> Inr s
           | Some badge \<Rightarrow> Inr (set_textContent badge count s)))"

definition task_count :: "page \<Rightarrow> node \<Rightarrow> nat" where
  "task_count s c = length (querySelectorAll s c (\<lambda>n. data_task_id s n \<noteq> None))"

definition updateColumnCounts :: "node option \<Rightarrow> node option \<Rightarrow> page \<Rightarrow> result" where
  "updateColumnCounts fromColumn toColumn s =
     (case (case fromColumn of
              None \<Rightarrow> Inr s
            | Some f \<Rightarrow> updateBadgeCount (dataset (data_column_id s f))
                          (count_value (task_count s f)) s) of
        Inl x \<Rightarrow> Inl x
      | Inr s1 \<Rightarrow>
          if toColumn \<noteq> None \<and> toColumn \<noteq> fromColumn
          then updateBadgeCount (dataset (data_column_id s1 (the toColumn)))
                 (count_value (task_count s1 (the toColumn))) s1
          else Inr s1)"

subsection \<open>String replacement\<close>

text \<open>
  \<open>String.prototype.replace\<close> with a string pattern: only the first occurrence is
  replaced, and in the replacement \<open>$$\<close>, \<open>$&\<close>, \<open>$`\<close> and \<open>$'\<close> stand for a dollar
  sign, the match, the text before it and the text after it (a string pattern has no
  groups, so a dollar sign before anything else stays as it is).
\<close>

fun split_first :: "string \<Rightarrow> string \<Rightarrow> (string \<times> string) option" where
  "split_first pat [] = (if pat = [] then Some ([], []) else None)"
| "split_first pat (c # cs) =
     (if take (length pat) (c # cs) = pat then Some ([], drop (length pat) (c # cs))
      else map_option (\<lambda>(b, a). (c # b, a)) (split_first pat cs))"

fun expand_repl :: "string \<Rightarrow> string \<Rightarrow> string \<Rightarrow> string \<Rightarrow> string" where
  "expand_repl b m a (c # c' # r) =
     (if c = CHR ''$'' \<and> c' = CHR ''$'' then CHR ''$'' # expand_repl b m a r
      else if c = CHR ''$'' \<and> c' = CHR ''&'' then m @ expand_repl b m a r
      else if c = CHR ''$'' \<and> c' = CHR 0x60 then b @ expand_repl b m a r
      else if c = CHR ''$'' \<and> c' = CHR 0x27 then a @ expand_repl b m a r
      else c # expand_repl b m a (c' # r))"
| "expand_repl b m a r = r"

definition js_replace :: "string \<Rightarrow> string \<Rightarrow> string \<Rightarrow> string" where
  "js_replace s pat repl =
     (case split_first pat s of
        None \<Rightarrow> s
      | Some (b, a) \<Rightarrow> b @ expand_repl b pat a repl @ a)"

section \<open>The kanban board script\<close>



definition classList_add :: "string \<Rightarrow> string list \<Rightarrow> string list" where
  "classList_add c cs = (if c \<in> set cs then cs else cs @ [c])"

definition onStart :: "event \<Rightarrow> page \<Rightarrow> page" where
  "onStart evt s =
     s\<lparr>draggedElement := Some (evt_item evt),
       originalColumn := Some (evt_from evt),
       originalIndex := Some (oldIndex evt),
       body_classes := classList_add ''dragging-active'' (body_classes s)\<rparr>"

text \<open>
  \<open>showNotification\<close>: the toast is a newly created element, so appending it to the body
  cannot be refused; its markup is kept as the two values interpolated into it (the alert
  kind and the message), and the timer that removes it is recorded with its delay.
\<close>

definition showNotification :: "string \<Rightarrow> string \<Rightarrow> page \<Rightarrow> page" where
  "showNotification message type s =
     (let toast = next_node s in
      s\<lparr>doc := edit_kids (body s) (\<lambda>ks. ks @ [Node toast []]) (doc s),
        toasts := toasts s @ [(toast, if type = ''error'' then ''error'' else ''info'', message)],
        timers := timers s @ [(3000, toast)],
        next_node := Suc toast\<rparr>)"

definition revertMove :: "event \<Rightarrow> page \<Rightarrow> result" where
  "revertMove evt s =
     (case (originalColumn s, draggedElement s) of
        (Some oc, Some de) \<Rightarrow>
          (let cs = children (doc s) oc;
               referenceNode = (case originalIndex s of
                                  None \<Rightarrow> None
                                | Some i \<Rightarrow> if i < length cs then Some (cs ! i) else None)
           in case (case referenceNode of
                      Some r \<Rightarrow> insertBefore oc de (Some r) (doc s)
                    | None \<Rightarrow> appendChild oc de (doc s)) of
                Inl e \<Rightarrow> Inl (e, s)
              | Inr t \<Rightarrow> updateColumnCounts (Some (evt_to evt)) (Some oc) (s\<lparr>doc := t\<rparr>))
      | _ \<Rightarrow> Inr s)"

definition move_request :: "string \<Rightarrow> string \<Rightarrow> event \<Rightarrow> page \<Rightarrow> request" where
  "move_request csrfToken moveEndpoint evt s =
     \<lparr>req_method = ''POST'',
      req_url = js_replace moveEndpoint ''{taskId}''
                  (js_string (dataset (data_task_id s (evt_item evt)))),
      req_headers = [(''X-CSRFToken'', csrfToken),
                     (''Content-Type'', ''application/x-www-form-urlencoded''),
                     (''Accept'', ''application/json'')],
      req_body = ''column_id='' @ js_string (dataset (data_column_id s (evt_to evt)))
                 @ ''&position='' @ show_nat (newIndex evt)\<rparr>"

text \<open>The \<open>catch\<close> block of \<open>onEnd\<close>, entered with the message of what was thrown.\<close>

definition catch_block :: "event \<Rightarrow> string \<Rightarrow> page \<Rightarrow> result" where
  "catch_block evt message s =
     (case revertMove evt s of
        Inl x \<Rightarrow> Inl x
      | Inr s' \<Rightarrow>
          Inr (showNotification (if message \<noteq> [] then message else ''Could not move task'')
                 ''error'' s'))"

definition commit_from :: "event \<Rightarrow> (string \<times> jsval) list \<Rightarrow> page \<Rightarrow> result" where
  "commit_from evt data s =
     (if get_prop data ''from_count'' \<noteq> Undefined
      then updateBadgeCount (dataset (data_column_id s (evt_from evt)))
             (get_prop data ''from_count'') s
      else Inr s)"

definition commit_to :: "event \<Rightarrow> (string \<times> jsval) list \<Rightarrow> page \<Rightarrow> result" where
  "commit_to evt data s =
     (if get_prop data ''to_count'' \<noteq> Undefined
      then updateBadgeCount (dataset (data_column_id s (evt_to evt)))
             (get_prop data ''to_count'') s
      else Inr s)"

text \<open>
  The two commit steps stand inside the \<open>try\<close>: a throw of theirs would be caught and
  notified with the message the engine gives it. It cannot happen, since the in-flight
  state is reached only after the same two selectors were accepted (lemma
  \<open>commit_returns\<close>); the branch is left undetermined.
\<close>

definition commit :: "event \<Rightarrow> (string \<times> jsval) list \<Rightarrow> page \<Rightarrow> result" where
  "commit evt data s =
     (case commit_from evt data s of
        Inl (e, s') \<Rightarrow> Inl (Unmodelled, s')
      | Inr s3 \<Rightarrow>
          (case commit_to evt data s3 of
             Inl (e, s') \<Rightarrow> Inl (Unmodelled, s')
           | Inr s4 \<Rightarrow> Inr s4))"

text \<open>
  The state in which the request is in flight: the class is off the body, the optimistic
  counts are shown, the request is issued. The counts are updated before the \<open>try\<close>
  and before the request: a throw there ends the handler with no request issued.
\<close>

definition requesting :: "string \<Rightarrow> string \<Rightarrow> event \<Rightarrow> page \<Rightarrow> result" where
  "requesting csrfToken moveEndpoint evt s =
     (let s0 = s\<lparr>body_classes := removeAll ''dragging-active'' (body_classes s)\<rparr> in
      case updateColumnCounts (Some (evt_from evt)) (Some (evt_to evt)) s0 of
        Inl x \<Rightarrow> Inl x
      | Inr s1 \<Rightarrow>
          Inr (s1\<lparr>requests := requests s1 @ [move_request csrfToken moveEndpoint evt s0]\<rparr>))"

text \<open>
  \<open>onEnd\<close>, given how the awaited request turns out. The handler is taken in one piece:
  no other handler runs between the request and its outcome.
\<close>

definition onEnd :: "string \<Rightarrow> string \<Rightarrow> event \<Rightarrow> outcome \<Rightarrow> page \<Rightarrow> result" where
  "onEnd csrfToken moveEndpoint evt out s =
     (case requesting csrfToken moveEndpoint evt s of
        Inl x \<Rightarrow> Inl x
      | Inr s2 \<Rightarrow>
          (case out of
             Rejected m \<Rightarrow> catch_block evt m s2
           | Unparsable m \<Rightarrow> catch_block evt m s2
           | ParsedNull m \<Rightarrow> catch_block evt m s2
           | Parsed data \<Rightarrow>
               if \<not> truthy (get_prop data ''ok'')
               then catch_block evt
                      (js_string (if truthy (get_prop data ''error'') then get_prop data ''error''
                                  else Str ''Move failed'')) s2
               else commit evt data s2))"

section \<open>Vocabulary of the properties\<close>

text \<open>
  The key under which a column's badge is looked up and the value that key denotes in the
  selector; whether it denotes one; the first element carrying a value as its
  \<open>data-column-count\<close>; the badge of a column and the text it displays; whether that
  text is the number of task elements in the column; whether two columns denote different
  values.
\<close>

definition column_key :: "page \<Rightarrow> node \<Rightarrow> jsval" where
  "column_key s c = dataset (data_column_id s c)"

definition column_value :: "page \<Rightarrow> node \<Rightarrow> css_value" where
  "column_value s c = css_string (js_string (column_key s c))"

definition decodes :: "page \<Rightarrow> node \<Rightarrow> bool" where
  "decodes s c = (case column_value s c of Value _ \<Rightarrow> True | _ \<Rightarrow> False)"

definition badge_of :: "page \<Rightarrow> string \<Rightarrow> node option" where
  "badge_of s v = querySelector s (\<lambda>n. data_column_count s n = Some v)"

definition column_badge :: "page \<Rightarrow> node \<Rightarrow> node option" where
  "column_badge s c = (case column_value s c of Value v \<Rightarrow> badge_of s v | _ \<Rightarrow> None)"

definition badge_text :: "page \<Rightarrow> node \<Rightarrow> string option" where
  "badge_text s c = map_option (textContent s) (column_badge s c)"

definition count_shown :: "page \<Rightarrow> node \<Rightarrow> bool" where
  "count_shown s c =
     (case column_badge s c of
        None \<Rightarrow> True
      | Some b \<Rightarrow> textContent s b = show_nat (task_count s c))"

definition distinct_keys :: "page \<Rightarrow> node \<Rightarrow> node \<Rightarrow> bool" where
  "distinct_keys s a b = (a \<noteq> b \<longrightarrow> column_value s a \<noteq> column_value s b)"

definition shown_and_present :: "node \<Rightarrow> page \<Rightarrow> string option \<times> nat" where
  "shown_and_present c s = (badge_text s c, task_count s c)"

definition column_children :: "node \<Rightarrow> page \<Rightarrow> node list" where
  "column_children c s = children (doc s) c"

text \<open>
  Elements that satisfy \<open>A\<close> hold no child elements; on a page, the elements carrying
  \<open>data-column-count\<close> hold none: badges hold text only. A plain board, for a drop: the
  ids of the origin column, of the destination column and of the recorded origin column
  denote values, badges hold text only, and the recorded origin column is not itself a
  badge.
\<close>

definition childless :: "(node \<Rightarrow> bool) \<Rightarrow> tree \<Rightarrow> bool" where
  "childless A t = (\<forall>x\<in>set (subtrees t). A (nid x) \<longrightarrow> kids x = [])"

definition text_badges :: "page \<Rightarrow> bool" where
  "text_badges s = childless (\<lambda>n. data_column_count s n \<noteq> None) (doc s)"

definition plain_board :: "page \<Rightarrow> event \<Rightarrow> bool" where
  "plain_board s evt =
     (decodes s (evt_from evt) \<and> decodes s (evt_to evt) \<and> text_badges s \<and>
      (case originalColumn s of
         None \<Rightarrow> True
       | Some oc \<Rightarrow> decodes s oc \<and> data_column_count s oc = None))"


definition can_reinsert :: "page \<Rightarrow> bool" where
  "can_reinsert s =
     (case (originalColumn s, draggedElement s) of
        (Some oc, Some de) \<Rightarrow> oc \<notin> set (elements (subtree_of (doc s) de))
      | _ \<Rightarrow> True)"

definition failed :: "outcome \<Rightarrow> bool" where
  "failed out =
     (case out of Parsed data \<Rightarrow> get_prop data ''ok'' \<noteq> Bool True | _ \<Rightarrow> True)"

definition refused :: "outcome \<Rightarrow> bool" where
  "refused out =
     (case out of Parsed data \<Rightarrow> \<not> truthy (get_prop data ''ok'') | _ \<Rightarrow> True)"

definition final_page :: "result \<Rightarrow> page" where
  "final_page r = (case r of Inl (e, s) \<Rightarrow> s | Inr s \<Rightarrow> s)"

definition issued :: "page \<Rightarrow> string list" where
  "issued s = map req_url (requests s)"

text \<open>
  A board for the examples: columns \<open>todo\<close> (tasks 100, 101, 102; badge 20), \<open>doing\<close>
  (task 103; badge 21), \<open>done\<close> and \<open>later\<close> (empty, no badge); then a drag of task 102
  to the top of its own column, a drag of task 100 to the top of \<open>doing\<close>, and a drag of
  task 102, the last of \<open>todo\<close>, to the end of \<open>doing\<close>, each in the state the page has
  when the drop is reported.
\<close>

definition board0 :: page where
  "board0 =
     \<lparr>doc = Node 0 [Node 1 [Node 2 [Node 20 [], Node 10 [Node 100 [], Node 101 [], Node 102 []],
                                   Node 21 [], Node 11 [Node 103 []],
                                   Node 12 [], Node 13 []]]],
      body = 1,
      el_id = (\<lambda>n. if n = 2 then Some ''board'' else None),
      data_column_id = (\<lambda>n. if n = 10 then Some ''todo'' else if n = 11 then Some ''doing''
                          else if n = 12 then Some ''done'' else if n = 13 then Some ''later''
                          else None),
      data_can_drag = (\<lambda>n. if n = 10 then Some ''true'' else if n = 11 then Some ''true''
                         else if n = 12 then Some ''false'' else None),
      data_task_id = (\<lambda>n. if n = 100 then Some ''1'' else if n = 101 then Some ''2''
                        else if n = 102 then Some ''3'' else if n = 103 then Some ''4'' else None),
      data_column_count = (\<lambda>n. if n = 20 then Some ''todo'' else if n = 21 then Some ''doing''
                             else None),
      textContent = (\<lambda>n. if n = 20 then ''3'' else if n = 21 then ''1'' else []),
      body_classes = [],
      draggedElement = None, originalColumn = None, originalIndex = None,
      sortables = [], requests = [], toasts = [], timers = [], next_node = 1000\<rparr>"

definition evt_up :: event where
  "evt_up = \<lparr>evt_item = 102, evt_from = 10, evt_to = 10, oldIndex = 2, newIndex = 0\<rparr>"

definition dropped_up :: page where
  "dropped_up =
     (onStart evt_up board0)
       \<lparr>doc := Node 0 [Node 1 [Node 2 [Node 20 [], Node 10 [Node 102 [], Node 100 [], Node 101 []],
                                      Node 21 [], Node 11 [Node 103 []],
                                      Node 12 [], Node 13 []]]]\<rparr>"

definition evt_across :: event where
  "evt_across = \<lparr>evt_item = 100, evt_from = 10, evt_to = 11, oldIndex = 0, newIndex = 0\<rparr>"

definition dropped_across :: page where
  "dropped_across =
     (onStart evt_across board0)
       \<lparr>doc := Node 0 [Node 1 [Node 2 [Node 20 [], Node 10 [Node 101 [], Node 102 []],
                                      Node 21 [], Node 11 [Node 100 [], Node 103 []],
                                      Node 12 [], Node 13 []]]]\<rparr>"

definition evt_last :: event where
  "evt_last = \<lparr>evt_item = 102, evt_from = 10, evt_to = 11, oldIndex = 2, newIndex = 1\<rparr>"

definition dropped_last :: page where
  "dropped_last =
     (onStart evt_last board0)
       \<lparr>doc := Node 0 [Node 1 [Node 2 [Node 20 [], Node 10 [Node 100 [], Node 101 []],
                                      Node 21 [], Node 11 [Node 103 [], Node 102 []],
                                      Node 12 [], Node 13 []]]]\<rparr>"

text \<open>
  The page after the drag of task 100 is rolled back; answers of the server; an id with a
  double quote and an id with an escape that denotes \<open>todo\<close>; the page of the drag of
  task 100 with the quoted id on the destination column, and with a task id that is a
  replacement pattern.
\<close>

definition reverted_across :: page where
  "reverted_across =
     final_page (updateColumnCounts (Some 11) (Some 10) (dropped_across\<lparr>doc := doc board0\<rparr>))"

definition locked :: outcome where
  "locked = Parsed [(''ok'', Bool False), (''error'', Str ''locked'')]"

definition moved :: outcome where
  "moved = Parsed [(''ok'', Bool True), (''from_count'', Other ''7''), (''to_count'', Other ''5'')]"

definition moved_elsewhere :: outcome where
  "moved_elsewhere =
     Parsed [(''ok'', Bool True), (''from_count'', Other ''7''), (''to_count'', Other ''2'')]"

definition reordered :: outcome where
  "reordered =
     Parsed [(''ok'', Bool True), (''from_count'', Other ''5''), (''to_count'', Other ''9'')]"

definition reordered_to :: outcome where
  "reordered_to = Parsed [(''ok'', Bool True), (''to_count'', Other ''9'')]"

definition stringly :: outcome where
  "stringly = Parsed [(''ok'', Str ''false'')]"

definition quoted_id :: string where
  "quoted_id = ''a'' @ [CHR 0x22] @ ''b''"

definition escaped_id :: string where
  "escaped_id = ''tod'' @ [CHR 0x5C] @ ''o''"

definition quoted_page :: page where
  "quoted_page =
     dropped_across\<lparr>data_column_id := (data_column_id dropped_across)(11 := Some quoted_id)\<rparr>"

definition dollar_page :: page where
  "dollar_page =
     dropped_across\<lparr>data_task_id := (data_task_id dropped_across)(100 := Some ''$&'')\<rparr>"

text \<open>
  What \<open>updateBadgeCount\<close> does on a page whose badges hold text only, once the id
  denotes the value \<open>v\<close>: the first element carrying \<open>v\<close>, if any, gets the text.
\<close>

definition write_badge :: "string \<Rightarrow> jsval \<Rightarrow> page \<Rightarrow> page" where
  "write_badge v c s =
     (case badge_of s v of
        None \<Rightarrow> s
      | Some b \<Rightarrow> s\<lparr>textContent := (textContent s)(b := text_of c)\<rparr>)"

section \<open>Lemmas on the element tree\<close>

lemma elements_Node: "elements (Node n ks) = n # concat (map elements ks)"
  by (simp add: elements_def [abs_def] map_concat comp_def)

lemma nid_in_elements: "nid t \<in> set (elements t)"
  by (cases t) (simp add: elements_Node)

lemma nid_detach: "nid (detach d t) = nid t"
  by (cases t) simp

lemma nid_edit_kids: "nid (edit_kids p f t) = nid t"
  by (cases t) simp

lemma elements_detach: "set (elements (detach d t)) \<subseteq> set (elements t)"
  by (induction t) (auto simp: elements_Node)

lemma edit_kids_absent: "p \<notin> set (elements t) \<Longrightarrow> edit_kids p f t = t"
  by (induction t) (auto simp: elements_Node map_idI)

lemma find_app:
  "find P (xs @ ys) = (case find P xs of None \<Rightarrow> find P ys | Some x \<Rightarrow> Some x)"
  by (induction xs) auto

lemma find_node_None: "find_node t p = None \<longleftrightarrow> p \<notin> set (elements t)"
  by (auto simp: find_node_def elements_def find_None_iff)

lemma find_node_nid: "find_node t p = Some x \<Longrightarrow> nid x = p"
  by (auto simp: find_node_def find_Some_iff)

lemma find_node_Node:
  "find_node (Node n ks) p =
     (if n = p then Some (Node n ks) else find (\<lambda>x. nid x = p) (concat (map subtrees ks)))"
  by (simp add: find_node_def)

lemma find_kids_skip:
  assumes "\<forall>y\<in>set ks1. p \<notin> set (elements y)" and "p \<in> set (elements k)"
  shows "find (\<lambda>x. nid x = p) (concat (map subtrees (ks1 @ k # ks2))) = find_node k p"
proof -
  have "find (\<lambda>x. nid x = p) (concat (map subtrees ks1)) = None"
    using assms(1) by (auto simp: find_None_iff elements_def)
  moreover obtain x where "find_node k p = Some x"
    using assms(2) find_node_None [of k p] by (cases "find_node k p") auto
  ultimately show ?thesis
    by (simp add: find_app) (simp add: find_node_def)
qed

lemma nid_subtree_of: "nid (subtree_of t d) = d"
  by (auto simp: subtree_of_def dest: find_node_nid split: option.splits)

lemma find_node_root: "find_node t (nid t) = Some t"
  by (cases t) (simp add: find_node_Node)

lemma subtree_of_kid:
  assumes "n \<noteq> d" and "\<forall>y\<in>set ks1. d \<notin> set (elements y)" and "d \<in> set (elements k)"
  shows "subtree_of (Node n (ks1 @ k # ks2)) d = subtree_of k d"
  using find_kids_skip [OF assms(2,3), of ks2] assms(1)
  by (simp add: subtree_of_def find_node_Node)

lemma map_nid_filter: "map nid (filter (\<lambda>k. nid k \<noteq> d) ks) = removeAll d (map nid ks)"
  by (induction ks) auto

lemma find_node_edit_detach:
  assumes "p \<in> set (elements t)" and "distinct (elements t)"
    and "p \<notin> set (elements (subtree_of t d))"
  shows "\<exists>P. find_node t p = Some P \<and>
           find_node (edit_kids p f (detach d t)) p =
             Some (Node p (f (map (edit_kids p f)
                               (map (detach d) (filter (\<lambda>k. nid k \<noteq> d) (kids P))))))"
  using assms
proof (induction t)
  case (Node n ks)
  show ?case
  proof (cases "n = p")
    case True
    then show ?thesis by (simp add: find_node_Node)
  next
    case False
    have nd: "n \<noteq> d"
    proof
      assume "n = d"
      then have "subtree_of (Node n ks) d = Node n ks"
        by (simp add: subtree_of_def find_node_Node)
      with Node.prems(1,3) show False by simp
    qed
    from Node.prems(1) False have "\<exists>k\<in>set ks. p \<in> set (elements k)"
      by (auto simp: elements_Node)
    from split_list_first_prop [OF this]
    obtain ks1 k ks2 where split: "ks = ks1 @ k # ks2"
      and pk: "p \<in> set (elements k)" and before: "\<forall>y\<in>set ks1. p \<notin> set (elements y)"
      by blast
    have dist: "distinct (elements k)"
      and disj: "\<forall>y\<in>set ks1. set (elements y) \<inter> set (elements k) = {}"
      using Node.prems(2) split by (auto simp: elements_Node)
    have fn: "find_node (Node n ks) p = find_node k p"
      using False split find_kids_skip [OF before pk, of ks2] by (simp add: find_node_Node)
    have inside: "subtree_of (Node n ks) d = subtree_of k d" if "d \<in> set (elements k)"
    proof -
      have "\<forall>y\<in>set ks1. d \<notin> set (elements y)" using disj that by blast
      then show ?thesis using nd that split by (simp add: subtree_of_kid)
    qed
    have kd: "nid k \<noteq> d"
    proof
      assume e: "nid k = d"
      then have "d \<in> set (elements k)" using nid_in_elements [of k] by simp
      then have "subtree_of (Node n ks) d = subtree_of k d" by (rule inside)
      also have "\<dots> = k" using e find_node_root [of k] by (simp add: subtree_of_def)
      finally show False using Node.prems(3) pk by simp
    qed
    have surv: "p \<notin> set (elements (subtree_of k d))"
    proof (cases "d \<in> set (elements k)")
      case True
      then show ?thesis using inside Node.prems(3) by simp
    next
      case False
      then have "subtree_of k d = Node d []"
        using find_node_None [of k d] by (simp add: subtree_of_def)
      then show ?thesis using False pk by (auto simp: elements_Node)
    qed
    from split have "k \<in> set ks" by simp
    from Node.IH [OF this pk dist surv] obtain P where P: "find_node k p = Some P"
      "find_node (edit_kids p f (detach d k)) p =
         Some (Node p (f (map (edit_kids p f)
                           (map (detach d) (filter (\<lambda>k. nid k \<noteq> d) (kids P))))))"
      by auto
    have tr: "edit_kids p f (detach d (Node n ks)) =
        Node n (map (edit_kids p f) (map (detach d) (filter (\<lambda>k. nid k \<noteq> d) ks1))
                @ edit_kids p f (detach d k)
                # map (edit_kids p f) (map (detach d) (filter (\<lambda>k. nid k \<noteq> d) ks2)))"
      using False kd split by simp
    have before': "\<forall>y\<in>set (map (edit_kids p f) (map (detach d) (filter (\<lambda>k. nid k \<noteq> d) ks1))).
        p \<notin> set (elements y)"
    proof -
      have "p \<notin> set (elements (edit_kids p f (detach d y)))" if "y \<in> set ks1" for y
      proof -
        have "p \<notin> set (elements (detach d y))"
          using before that elements_detach [of d y] by blast
        then show ?thesis by (simp add: edit_kids_absent)
      qed
      then show ?thesis by auto
    qed
    have pk': "p \<in> set (elements (edit_kids p f (detach d k)))"
      using P(2) find_node_None [of "edit_kids p f (detach d k)" p] by auto
    have "find_node (edit_kids p f (detach d (Node n ks))) p
          = find_node (edit_kids p f (detach d k)) p"
      unfolding tr
      using False find_kids_skip [OF before' pk',
          of "map (edit_kids p f) (map (detach d) (filter (\<lambda>k. nid k \<noteq> d) ks2))"]
      by (simp add: find_node_Node)
    with fn P show ?thesis by simp
  qed
qed

lemma children_after_append:
  assumes "p \<in> set (elements t)" and "distinct (elements t)"
    and "p \<notin> set (elements (subtree_of t d))"
  shows "children (edit_kids p (insert_kid (subtree_of t d) None) (detach d t)) p
         = removeAll d (children t p) @ [d]"
proof -
  from find_node_edit_detach [OF assms, of "insert_kid (subtree_of t d) None"]
  obtain P where P: "find_node t p = Some P"
    "find_node (edit_kids p (insert_kid (subtree_of t d) None) (detach d t)) p =
       Some (Node p (insert_kid (subtree_of t d) None
         (map (edit_kids p (insert_kid (subtree_of t d) None))
            (map (detach d) (filter (\<lambda>k. nid k \<noteq> d) (kids P))))))"
    by blast
  have "map nid (map (edit_kids p (insert_kid (subtree_of t d) None))
            (map (detach d) (filter (\<lambda>k. nid k \<noteq> d) (kids P))))
        = removeAll d (map nid (kids P))"
    by (simp add: comp_def nid_edit_kids nid_detach map_nid_filter [symmetric])
  then show ?thesis
    using P by (simp add: children_def subtree_of_def nid_subtree_of [unfolded subtree_of_def])
qed

lemma map_nid_insert_kid:
  "map nid (insert_kid d (Some r) ks)
   = takeWhile (\<lambda>x. x \<noteq> r) (map nid ks) @ nid d # dropWhile (\<lambda>x. x \<noteq> r) (map nid ks)"
  by (simp add: takeWhile_map dropWhile_map comp_def)

lemma children_after_insert:
  assumes "p \<in> set (elements t)" and "distinct (elements t)"
    and "p \<notin> set (elements (subtree_of t d))"
  shows "children (edit_kids p (insert_kid (subtree_of t d) (Some r)) (detach d t)) p
         = takeWhile (\<lambda>x. x \<noteq> r) (removeAll d (children t p)) @ d
           # dropWhile (\<lambda>x. x \<noteq> r) (removeAll d (children t p))"
proof -
  let ?f = "insert_kid (subtree_of t d) (Some r)"
  from find_node_edit_detach [OF assms, of ?f]
  obtain P where P: "find_node t p = Some P"
    "find_node (edit_kids p ?f (detach d t)) p =
       Some (Node p (?f (map (edit_kids p ?f)
                           (map (detach d) (filter (\<lambda>k. nid k \<noteq> d) (kids P))))))"
    by blast
  let ?ks = "map (edit_kids p ?f) (map (detach d) (filter (\<lambda>k. nid k \<noteq> d) (kids P)))"
  have m: "map nid ?ks = removeAll d (map nid (kids P))"
    by (simp add: comp_def nid_edit_kids nid_detach map_nid_filter [symmetric])
  have c0: "children t p = map nid (kids P)"
    using P(1) by (simp add: children_def subtree_of_def)
  have "children (edit_kids p ?f (detach d t)) p = map nid (?f ?ks)"
    using P(2) by (simp add: children_def subtree_of_def del: insert_kid.simps)
  also have "\<dots> = takeWhile (\<lambda>x. x \<noteq> r) (map nid ?ks) @ nid (subtree_of t d)
                    # dropWhile (\<lambda>x. x \<noteq> r) (map nid ?ks)"
    by (rule map_nid_insert_kid)
  finally show ?thesis by (simp only: m c0 nid_subtree_of)
qed

lemma split_at_nth:
  "distinct xs \<Longrightarrow> i < length xs \<Longrightarrow>
     takeWhile (\<lambda>x. x \<noteq> xs ! i) xs = take i xs \<and> dropWhile (\<lambda>x. x \<noteq> xs ! i) xs = drop i xs"
proof (induction xs arbitrary: i)
  case Nil
  then show ?case by simp
next
  case (Cons x xs)
  show ?case
  proof (cases i)
    case 0
    then show ?thesis by simp
  next
    case (Suc j)
    with Cons.prems have "x \<noteq> xs ! j" by auto
    with Cons Suc show ?thesis by simp
  qed
qed

section \<open>Lemmas on selectors and badges\<close>

lemma css_plain_scan: "css_plain x \<Longrightarrow> css_string x = Value x"
  unfolding css_string_def
  by (induction x) (auto simp: css_plain_def settle_def is_newline_def emit_def)

lemma final_page_simps [simp]: "final_page (Inr s) = s" "final_page (Inl (e, s)) = s"
  by (simp_all add: final_page_def)

lemma childless_Node:
  "childless A (Node n ks) \<longleftrightarrow> (A n \<longrightarrow> ks = []) \<and> (\<forall>k\<in>set ks. childless A k)"
  by (auto simp: childless_def)

lemma childless_detach: "childless A t \<Longrightarrow> childless A (detach d t)"
  by (induction t) (auto simp: childless_Node)

lemma childless_edit_kids:
  assumes "childless A t" and "\<not> A p"
    and "\<And>ks. \<forall>k\<in>set ks. childless A k \<Longrightarrow> \<forall>k\<in>set (f ks). childless A k"
  shows "childless A (edit_kids p f t)"
  using assms(1)
proof (induction t)
  case (Node n ks)
  then have "\<forall>k\<in>set (map (edit_kids p f) ks). childless A k"
    by (auto simp: childless_Node)
  with Node.prems assms(2) assms(3) [of "map (edit_kids p f) ks"] show ?case
    by (auto simp: childless_Node)
qed

lemma childless_subtree: "childless A t \<Longrightarrow> x \<in> set (subtrees t) \<Longrightarrow> childless A x"
proof (induction t)
  case (Node n ks)
  then show ?case by (auto simp: childless_Node)
qed

lemma childless_subtree_of: "childless A t \<Longrightarrow> childless A (subtree_of t d)"
proof (cases "find_node t d")
  case None
  then show ?thesis by (simp add: subtree_of_def childless_Node)
next
  case (Some x)
  assume c: "childless A t"
  from Some have "x \<in> set (subtrees t)" by (auto simp: find_node_def find_Some_iff)
  with c Some show ?thesis by (simp add: subtree_of_def childless_subtree)
qed

lemma childless_insert_kid:
  "childless A d \<Longrightarrow> \<forall>k\<in>set ks. childless A k \<Longrightarrow> \<forall>k\<in>set (insert_kid d r ks). childless A k"
  by (cases r) (auto dest: set_takeWhileD set_dropWhileD)

lemma insertBefore_form:
  "insertBefore p d r t = Inr t' \<Longrightarrow>
     \<exists>r'. t' = edit_kids p (insert_kid (subtree_of t d) r') (detach d t)"
  by (auto simp: insertBefore_def Let_def split: if_splits)

lemma childless_insertBefore:
  assumes "childless A t" and "\<not> A p" and "insertBefore p d r t = Inr t'"
  shows "childless A t'"
proof -
  from insertBefore_form [OF assms(3)] obtain r'
    where t': "t' = edit_kids p (insert_kid (subtree_of t d) r') (detach d t)" by blast
  show ?thesis
    unfolding t'
    by (rule childless_edit_kids [OF childless_detach [OF assms(1)] assms(2)])
       (rule childless_insert_kid [OF childless_subtree_of [OF assms(1)]])
qed

lemma prune_childless: "childless A t \<Longrightarrow> A b \<Longrightarrow> edit_kids b (\<lambda>_. []) t = t"
  by (induction t) (auto simp: childless_Node map_idI)

lemma badge_of_value: "badge_of s v = Some b \<Longrightarrow> data_column_count s b = Some v"
  by (auto simp: badge_of_def querySelector_def find_Some_iff)

lemma badges_differ: "badge_of s v = Some b \<Longrightarrow> badge_of s v' = Some b' \<Longrightarrow> v \<noteq> v' \<Longrightarrow> b \<noteq> b'"
  by (metis badge_of_value option.inject)

lemma badge_of_None_iff:
  "badge_of s v = None \<longleftrightarrow> (\<forall>n\<in>set (elements (doc s)). data_column_count s n \<noteq> Some v)"
  by (auto simp: badge_of_def querySelector_def find_None_iff)

lemma set_textContent_badge:
  assumes "text_badges s" and "badge_of s v = Some b"
  shows "set_textContent b c s = s\<lparr>textContent := (textContent s)(b := text_of c)\<rparr>"
proof -
  have "data_column_count s b \<noteq> None" using badge_of_value [OF assms(2)] by simp
  with assms(1) have "edit_kids b (\<lambda>_. []) (doc s) = doc s"
    unfolding text_badges_def by (rule prune_childless)
  then show ?thesis by (simp add: set_textContent_def)
qed

lemma updateBadgeCount_value:
  assumes "css_string (js_string k) = Value v"
  shows "updateBadgeCount k c s =
           Inr (case badge_of s v of None \<Rightarrow> s | Some b \<Rightarrow> set_textContent b c s)"
  using assms by (simp add: updateBadgeCount_def badge_of_def split: option.splits)

lemma updateBadgeCount_text_badges:
  assumes "css_string (js_string k) = Value v" and "text_badges s"
  shows "updateBadgeCount k c s =
           Inr (case badge_of s v of
                  None \<Rightarrow> s
                | Some b \<Rightarrow> s\<lparr>textContent := (textContent s)(b := text_of c)\<rparr>)"
  using assms set_textContent_badge [OF assms(2)]
  by (simp add: updateBadgeCount_value split: option.splits)

lemma updateBadgeCount_frame:
  "body (final_page (updateBadgeCount k c s)) = body s"
  "el_id (final_page (updateBadgeCount k c s)) = el_id s"
  "data_column_id (final_page (updateBadgeCount k c s)) = data_column_id s"
  "data_can_drag (final_page (updateBadgeCount k c s)) = data_can_drag s"
  "data_task_id (final_page (updateBadgeCount k c s)) = data_task_id s"
  "data_column_count (final_page (updateBadgeCount k c s)) = data_column_count s"
  "body_classes (final_page (updateBadgeCount k c s)) = body_classes s"
  "draggedElement (final_page (updateBadgeCount k c s)) = draggedElement s"
  "originalColumn (final_page (updateBadgeCount k c s)) = originalColumn s"
  "originalIndex (final_page (updateBadgeCount k c s)) = originalIndex s"
  "sortables (final_page (updateBadgeCount k c s)) = sortables s"
  "requests (final_page (updateBadgeCount k c s)) = requests s"
  "toasts (final_page (updateBadgeCount k c s)) = toasts s"
  "timers (final_page (updateBadgeCount k c s)) = timers s"
  "next_node (final_page (updateBadgeCount k c s)) = next_node s"
  by (simp_all add: updateBadgeCount_def set_textContent_def split: css_value.splits option.splits)

lemma updateColumnCounts_frame:
  "body (final_page (updateColumnCounts f t s)) = body s"
  "el_id (final_page (updateColumnCounts f t s)) = el_id s"
  "data_column_id (final_page (updateColumnCounts f t s)) = data_column_id s"
  "data_can_drag (final_page (updateColumnCounts f t s)) = data_can_drag s"
  "data_task_id (final_page (updateColumnCounts f t s)) = data_task_id s"
  "data_column_count (final_page (updateColumnCounts f t s)) = data_column_count s"
  "body_classes (final_page (updateColumnCounts f t s)) = body_classes s"
  "draggedElement (final_page (updateColumnCounts f t s)) = draggedElement s"
  "originalColumn (final_page (updateColumnCounts f t s)) = originalColumn s"
  "originalIndex (final_page (updateColumnCounts f t s)) = originalIndex s"
  "sortables (final_page (updateColumnCounts f t s)) = sortables s"
  "requests (final_page (updateColumnCounts f t s)) = requests s"
  "toasts (final_page (updateColumnCounts f t s)) = toasts s"
  "timers (final_page (updateColumnCounts f t s)) = timers s"
  "next_node (final_page (updateColumnCounts f t s)) = next_node s"
proof -
  have a: "F (final_page (updateColumnCounts f t s)) = F s"
    if "\<And>k c x. F (final_page (updateBadgeCount k c x)) = F x" for F :: "page \<Rightarrow> 'a"
  proof (cases "case f of None \<Rightarrow> Inr s
                | Some c \<Rightarrow> updateBadgeCount (dataset (data_column_id s c))
                              (count_value (task_count s c)) s")
    case (Inl x)
    then have "F (snd x) = F s"
      using that [of "dataset (data_column_id s (the f))" "count_value (task_count s (the f))" s]
      by (cases f; cases x) auto
    with Inl show ?thesis by (cases x) (simp add: updateColumnCounts_def)
  next
    case (Inr s1)
    then have "F s1 = F s"
      using that [of "dataset (data_column_id s (the f))" "count_value (task_count s (the f))" s]
      by (cases f) auto
    with Inr show ?thesis
      using that [of "dataset (data_column_id s1 (the t))" "count_value (task_count s1 (the t))" s1]
      by (simp add: updateColumnCounts_def)
  qed
  show "body (final_page (updateColumnCounts f t s)) = body s"
    "el_id (final_page (updateColumnCounts f t s)) = el_id s"
    "data_column_id (final_page (updateColumnCounts f t s)) = data_column_id s"
    "data_can_drag (final_page (updateColumnCounts f t s)) = data_can_drag s"
    "data_task_id (final_page (updateColumnCounts f t s)) = data_task_id s"
    "data_column_count (final_page (updateColumnCounts f t s)) = data_column_count s"
    "body_classes (final_page (updateColumnCounts f t s)) = body_classes s"
    "draggedElement (final_page (updateColumnCounts f t s)) = draggedElement s"
    "originalColumn (final_page (updateColumnCounts f t s)) = originalColumn s"
    "originalIndex (final_page (updateColumnCounts f t s)) = originalIndex s"
    "sortables (final_page (updateColumnCounts f t s)) = sortables s"
    "requests (final_page (updateColumnCounts f t s)) = requests s"
    "toasts (final_page (updateColumnCounts f t s)) = toasts s"
    "timers (final_page (updateColumnCounts f t s)) = timers s"
    "next_node (final_page (updateColumnCounts f t s)) = next_node s"
    by (rule a, rule updateBadgeCount_frame)+
qed

lemma updateBadgeCount_write:
  assumes "css_string (js_string k) = Value v" and "text_badges s"
  shows "updateBadgeCount k c s = Inr (write_badge v c s)"
  using updateBadgeCount_text_badges [OF assms] by (simp add: write_badge_def)

lemma write_badge_same:
  "doc (write_badge v c s) = doc s"
  "data_column_id (write_badge v c s) = data_column_id s"
  "data_column_count (write_badge v c s) = data_column_count s"
  "data_task_id (write_badge v c s) = data_task_id s"
  "text_badges (write_badge v c s) = text_badges s"
  "task_count (write_badge v c s) n = task_count s n"
  "column_value (write_badge v c s) n = column_value s n"
  "badge_of (write_badge v c s) v' = badge_of s v'"
  "column_badge (write_badge v c s) n = column_badge s n"
  "toasts (write_badge v c s) = toasts s"
  "requests (write_badge v c s) = requests s"
  by (simp_all add: write_badge_def text_badges_def task_count_def querySelectorAll_def
      column_value_def column_key_def badge_of_def querySelector_def column_badge_def
      split: option.splits css_value.splits)

lemma write_badge_text:
  "badge_of s v = Some b \<Longrightarrow> textContent (write_badge v c s) b = text_of c"
  "badge_of s v \<noteq> Some b \<Longrightarrow> textContent (write_badge v c s) b = textContent s b"
  by (auto simp: write_badge_def split: option.splits)

lemma decodes_Value: "decodes s c \<Longrightarrow> \<exists>v. column_value s c = Value v"
  by (cases "column_value s c") (simp_all add: decodes_def)

lemma css_plain_decodes: "css_plain (js_string (column_key s c)) \<Longrightarrow> decodes s c"
  by (simp add: decodes_def column_value_def css_plain_scan)

lemma show_nat_digit: "n < 10 \<Longrightarrow> show_nat n = [''0123456789'' ! n]"
  by (simp add: show_nat.simps)

lemma text_of_count: "text_of (count_value n) = show_nat n"
  by (simp add: count_value_def show_nat_digit)

lemma updateColumnCounts_returns:
  assumes "decodes s f" and "decodes s t"
  shows "\<exists>s'. updateColumnCounts (Some f) (Some t) s = Inr s'"
proof -
  from decodes_Value [OF assms(1)] obtain vf where vf: "column_value s f = Value vf" by blast
  from decodes_Value [OF assms(2)] obtain vt where vt: "column_value s t = Value vt" by blast
  obtain s1 where s1: "updateBadgeCount (dataset (data_column_id s f))
                         (count_value (task_count s f)) s = Inr s1"
    using vf updateBadgeCount_value [of "dataset (data_column_id s f)" vf]
    by (simp add: column_value_def column_key_def)
  have "data_column_id s1 = data_column_id s"
    using updateBadgeCount_frame(3) [of "dataset (data_column_id s f)"
        "count_value (task_count s f)" s] s1 by simp
  then have "css_string (js_string (dataset (data_column_id s1 t))) = Value vt"
    using vt by (simp add: column_value_def column_key_def)
  from updateBadgeCount_value [OF this] s1 show ?thesis
    by (simp add: updateColumnCounts_def)
qed

lemma updateColumnCounts_write:
  assumes "column_value s f = Value vf" and "column_value s t = Value vt" and "text_badges s"
  shows "updateColumnCounts (Some f) (Some t) s =
           Inr (if t = f then write_badge vf (count_value (task_count s f)) s
                else write_badge vt (count_value (task_count s t))
                       (write_badge vf (count_value (task_count s f)) s))"
proof -
  let ?s1 = "write_badge vf (count_value (task_count s f)) s"
  have 1: "updateBadgeCount (dataset (data_column_id s f)) (count_value (task_count s f)) s
           = Inr ?s1"
    using assms(1,3) by (simp add: updateBadgeCount_write column_value_def column_key_def)
  have "css_string (js_string (dataset (data_column_id ?s1 t))) = Value vt"
    using assms(2) by (simp add: write_badge_same column_value_def column_key_def)
  then have 2: "updateBadgeCount (dataset (data_column_id ?s1 t))
                  (count_value (task_count ?s1 t)) ?s1
                = Inr (write_badge vt (count_value (task_count s t)) ?s1)"
    using assms(3) by (simp add: updateBadgeCount_write write_badge_same)
  show ?thesis using 1 2 by (simp add: updateColumnCounts_def)
qed

lemma updateColumnCounts_count_shown:
  assumes "decodes s f" and "decodes s t" and "text_badges s" and "distinct_keys s f t"
    and "updateColumnCounts (Some f) (Some t) s = Inr s'" and "c = f \<or> c = t"
  shows "count_shown s' c \<and> doc s' = doc s \<and> text_badges s'"
proof -
  from decodes_Value [OF assms(1)] obtain vf where vf: "column_value s f = Value vf" by blast
  from decodes_Value [OF assms(2)] obtain vt where vt: "column_value s t = Value vt" by blast
  let ?s1 = "write_badge vf (count_value (task_count s f)) s"
  let ?s2 = "write_badge vt (count_value (task_count s t)) ?s1"
  have s': "s' = (if t = f then ?s1 else ?s2)"
    using updateColumnCounts_write [OF vf vt assms(3)] assms(5) by simp
  have same: "doc s' = doc s" "text_badges s'" "task_count s' c = task_count s c"
    "column_badge s' c = column_badge s c"
    using assms(3) by (simp_all add: s' write_badge_same)
  have "textContent s' b = show_nat (task_count s c)" if b: "column_badge s c = Some b" for b
  proof (cases "t = f")
    case True
    with assms(6) b vf show ?thesis
      by (simp add: s' column_badge_def write_badge_text text_of_count)
  next
    case False
    then have ne: "vf \<noteq> vt" using assms(4) vf vt by (auto simp: distinct_keys_def)
    from assms(6) show ?thesis
    proof
      assume c: "c = f"
      then have bf: "badge_of s vf = Some b" using b vf by (simp add: column_badge_def)
      then have "badge_of ?s1 vt \<noteq> Some b"
        using badges_differ [of s vf b vt b] ne by (auto simp: write_badge_same)
      with bf c False show ?thesis
        by (simp add: s' write_badge_text text_of_count)
    next
      assume c: "c = t"
      then have "badge_of ?s1 vt = Some b" using b vt by (simp add: column_badge_def write_badge_same)
      with c False show ?thesis by (simp add: s' write_badge_text text_of_count)
    qed
  qed
  with same show ?thesis by (simp add: count_shown_def split: option.splits)
qed

section \<open>Lemmas on reverting\<close>

lemma insertBefore_child:
  assumes "p \<notin> set (elements (subtree_of t d))" and "r \<in> set (children t p)"
  shows "\<exists>t'. insertBefore p d (Some r) t = Inr t'"
  using assms by (simp add: insertBefore_def elements_def Let_def)

lemma appendChild_tree:
  assumes "p \<notin> set (elements (subtree_of t d))"
  shows "appendChild p d t = Inr (edit_kids p (insert_kid (subtree_of t d) None) (detach d t))"
  using assms by (simp add: appendChild_def insertBefore_def elements_def Let_def)

lemma revertMove_session:
  assumes "originalColumn s = Some oc" and "draggedElement s = Some de"
    and "oc \<notin> set (elements (subtree_of (doc s) de))"
  shows "\<exists>t r. insertBefore oc de r (doc s) = Inr t \<and>
           revertMove evt s = updateColumnCounts (Some (evt_to evt)) (Some oc) (s\<lparr>doc := t\<rparr>)"
proof (cases "\<exists>i. originalIndex s = Some i \<and> i < length (children (doc s) oc)")
  case True
  then obtain i where i: "originalIndex s = Some i" "i < length (children (doc s) oc)" by blast
  then have "children (doc s) oc ! i \<in> set (children (doc s) oc)" by simp
  from insertBefore_child [OF assms(3) this] obtain t'
    where "insertBefore oc de (Some (children (doc s) oc ! i)) (doc s) = Inr t'" by blast
  then show ?thesis using assms(1,2) i by (auto simp: revertMove_def Let_def)
next
  case False
  then have "(case originalIndex s of None \<Rightarrow> None
              | Some i \<Rightarrow> if i < length (children (doc s) oc)
                          then Some (children (doc s) oc ! i) else None) = None"
    by (auto split: option.splits)
  moreover have "insertBefore oc de None (doc s)
        = Inr (edit_kids oc (insert_kid (subtree_of (doc s) de) None) (detach de (doc s)))"
    using appendChild_tree [OF assms(3)] by (simp add: appendChild_def)
  ultimately show ?thesis
    using assms(1,2) by (auto simp: revertMove_def Let_def appendChild_def)
qed

lemma revertMove_total:
  assumes "can_reinsert s" and "decodes s (evt_to evt)"
    and "case originalColumn s of None \<Rightarrow> True | Some oc \<Rightarrow> decodes s oc"
  shows "\<exists>s'. revertMove evt s = Inr s'"
proof (cases "originalColumn s")
  case None
  then show ?thesis by (simp add: revertMove_def)
next
  case (Some oc)
  show ?thesis
  proof (cases "draggedElement s")
    case None
    then show ?thesis using Some by (simp add: revertMove_def)
  next
    case de: (Some de)
    with Some assms(1) have "oc \<notin> set (elements (subtree_of (doc s) de))"
      by (simp add: can_reinsert_def)
    from revertMove_session [OF Some de this, of evt] obtain t r where
      t: "revertMove evt s = updateColumnCounts (Some (evt_to evt)) (Some oc) (s\<lparr>doc := t\<rparr>)"
      by blast
    have "decodes (s\<lparr>doc := t\<rparr>) (evt_to evt)" "decodes (s\<lparr>doc := t\<rparr>) oc"
      using assms(2,3) Some by (simp_all add: decodes_def column_value_def column_key_def)
    from updateColumnCounts_returns [OF this] t show ?thesis by simp
  qed
qed

lemma revertMove_frame:
  "requests (final_page (revertMove evt s)) = requests s"
  "toasts (final_page (revertMove evt s)) = toasts s"
  "next_node (final_page (revertMove evt s)) = next_node s"
  "body (final_page (revertMove evt s)) = body s"
  "timers (final_page (revertMove evt s)) = timers s"
  "data_column_id (final_page (revertMove evt s)) = data_column_id s"
  "data_column_count (final_page (revertMove evt s)) = data_column_count s"
  "data_task_id (final_page (revertMove evt s)) = data_task_id s"
  by (simp_all add: revertMove_def Let_def updateColumnCounts_frame
      split: option.splits sum.splits)

lemma revertMove_Inr_frame:
  assumes "revertMove evt s = Inr s'"
  shows "requests s' = requests s" "toasts s' = toasts s" "next_node s' = next_node s"
  using revertMove_frame(1-3) [of evt s] assms by simp_all

lemma requesting_cases:
  "requesting tok ep evt s =
     (case updateColumnCounts (Some (evt_from evt)) (Some (evt_to evt))
             (s\<lparr>body_classes := removeAll ''dragging-active'' (body_classes s)\<rparr>) of
        Inl x \<Rightarrow> Inl x
      | Inr s1 \<Rightarrow> Inr (s1\<lparr>requests := requests s1 @ [move_request tok ep evt s]\<rparr>))"
  by (simp add: requesting_def Let_def move_request_def split: sum.splits)

lemma requesting_frame:
  assumes "requesting tok ep evt s = Inr s2"
  shows "requests s2 = requests s @ [move_request tok ep evt s]"
    "toasts s2 = toasts s" "next_node s2 = next_node s"
    "draggedElement s2 = draggedElement s" "originalColumn s2 = originalColumn s"
    "originalIndex s2 = originalIndex s" "data_column_id s2 = data_column_id s"
    "data_column_count s2 = data_column_count s" "data_task_id s2 = data_task_id s"
proof -
  let ?s0 = "s\<lparr>body_classes := removeAll ''dragging-active'' (body_classes s)\<rparr>"
  let ?u = "updateColumnCounts (Some (evt_from evt)) (Some (evt_to evt)) ?s0"
  from assms obtain s1 where s1: "?u = Inr s1"
    and s2: "s2 = s1\<lparr>requests := requests s1 @ [move_request tok ep evt s]\<rparr>"
    by (auto simp: requesting_cases split: sum.splits)
  note fr = updateColumnCounts_frame [of "Some (evt_from evt)" "Some (evt_to evt)" ?s0,
      unfolded s1 final_page_simps]
  show "requests s2 = requests s @ [move_request tok ep evt s]"
    "toasts s2 = toasts s" "next_node s2 = next_node s"
    "draggedElement s2 = draggedElement s" "originalColumn s2 = originalColumn s"
    "originalIndex s2 = originalIndex s" "data_column_id s2 = data_column_id s"
    "data_column_count s2 = data_column_count s" "data_task_id s2 = data_task_id s"
    by (simp_all add: s2 fr)
qed

lemma requesting_thrown:
  assumes "requesting tok ep evt s = Inl (e, s')"
  shows "requests s' = requests s"
proof -
  let ?s0 = "s\<lparr>body_classes := removeAll ''dragging-active'' (body_classes s)\<rparr>"
  from assms have "updateColumnCounts (Some (evt_from evt)) (Some (evt_to evt)) ?s0 = Inl (e, s')"
    by (auto simp: requesting_cases split: sum.splits)
  with updateColumnCounts_frame(12) [of "Some (evt_from evt)" "Some (evt_to evt)" ?s0]
  show ?thesis by simp
qed

lemma requesting_plain:
  assumes "decodes s (evt_from evt)" and "decodes s (evt_to evt)"
  shows "\<exists>s2. requesting tok ep evt s = Inr s2"
proof -
  let ?s0 = "s\<lparr>body_classes := removeAll ''dragging-active'' (body_classes s)\<rparr>"
  have "decodes ?s0 (evt_from evt)" "decodes ?s0 (evt_to evt)"
    using assms by (simp_all add: decodes_def column_value_def column_key_def)
  from updateColumnCounts_returns [OF this] show ?thesis
    by (auto simp: requesting_cases)
qed

lemma requesting_text_badges:
  assumes "decodes s (evt_from evt)" and "decodes s (evt_to evt)" and "text_badges s"
    and "distinct_keys s (evt_from evt) (evt_to evt)"
    and "requesting tok ep evt s = Inr s2"
  shows "doc s2 = doc s" "text_badges s2" "count_shown s2 (evt_from evt)"
    "count_shown s2 (evt_to evt)"
proof -
  let ?s0 = "s\<lparr>body_classes := removeAll ''dragging-active'' (body_classes s)\<rparr>"
  have h: "decodes ?s0 (evt_from evt)" "decodes ?s0 (evt_to evt)" "text_badges ?s0"
    "distinct_keys ?s0 (evt_from evt) (evt_to evt)"
    using assms(1-4)
    by (simp_all add: decodes_def column_value_def column_key_def text_badges_def
        distinct_keys_def)
  from assms(5) obtain s1
    where s1: "updateColumnCounts (Some (evt_from evt)) (Some (evt_to evt)) ?s0 = Inr s1"
      and s2: "s2 = s1\<lparr>requests := requests s1 @ [move_request tok ep evt s]\<rparr>"
    by (auto simp: requesting_cases split: sum.splits)
  have same: "count_shown s2 c = count_shown s1 c" for c
    by (simp add: s2 count_shown_def column_badge_def column_value_def column_key_def
        badge_of_def querySelector_def task_count_def querySelectorAll_def
        split: option.splits css_value.splits)
  from updateColumnCounts_count_shown [OF h s1, of "evt_from evt"]
  have a: "count_shown s1 (evt_from evt)" "doc s1 = doc s" "text_badges s1" by simp_all
  from updateColumnCounts_count_shown [OF h s1, of "evt_to evt"]
  have b: "count_shown s1 (evt_to evt)" by simp
  show "doc s2 = doc s" using a(2) by (simp add: s2)
  show "text_badges s2" using a(3) by (simp add: s2 text_badges_def)
  show "count_shown s2 (evt_from evt)" using a(1) by (simp add: same)
  show "count_shown s2 (evt_to evt)" using b by (simp add: same)
qed

lemma catch_block_Inr:
  assumes "revertMove evt s = Inr r"
  shows "catch_block evt m s =
           Inr (showNotification (if m \<noteq> [] then m else ''Could not move task'') ''error'' r)"
  using assms by (simp add: catch_block_def)

lemma catch_block_toasts:
  assumes "catch_block evt m s = Inr x"
  shows "toasts x = toasts s @ [(next_node s, ''error'',
                                  if m \<noteq> [] then m else ''Could not move task'')]"
  using assms
  by (auto simp: catch_block_def showNotification_def Let_def revertMove_Inr_frame
      split: sum.splits)

lemma catch_block_requests: "requests (final_page (catch_block evt m s)) = requests s"
  using revertMove_frame(1) [of evt s]
  by (auto simp: catch_block_def showNotification_def Let_def split: sum.splits)

lemma commit_requests: "requests (final_page (commit evt data s)) = requests s"
proof -
  have a: "requests (final_page (commit_from evt data s)) = requests s"
    by (simp add: commit_from_def updateBadgeCount_frame)
  have b: "requests (final_page (commit_to evt data x)) = requests x" for x
    by (simp add: commit_to_def updateBadgeCount_frame)
  show ?thesis
  proof (cases "commit_from evt data s")
    case (Inl x)
    with a show ?thesis by (cases x) (simp add: commit_def)
  next
    case (Inr s3)
    with a b [of s3] show ?thesis
      by (cases "commit_to evt data s3") (auto simp: commit_def)
  qed
qed

lemma commit_write:
  assumes "column_value s (evt_from evt) = Value vf" and "column_value s (evt_to evt) = Value vt"
    and "text_badges s"
  shows "commit evt data s =
           Inr ((if get_prop data ''to_count'' \<noteq> Undefined
                 then write_badge vt (get_prop data ''to_count'') else id)
                  ((if get_prop data ''from_count'' \<noteq> Undefined
                    then write_badge vf (get_prop data ''from_count'') else id) s))"
proof -
  let ?s3 = "(if get_prop data ''from_count'' \<noteq> Undefined
              then write_badge vf (get_prop data ''from_count'') else id) s"
  have 1: "commit_from evt data s = Inr ?s3"
    using assms(1,3)
    by (simp add: commit_from_def updateBadgeCount_write column_value_def column_key_def)
  have "column_value ?s3 (evt_to evt) = Value vt" "text_badges ?s3"
    using assms(2,3) by (simp_all add: write_badge_same)
  then have 2: "commit_to evt data ?s3 =
      Inr ((if get_prop data ''to_count'' \<noteq> Undefined
            then write_badge vt (get_prop data ''to_count'') else id) ?s3)"
    by (simp add: commit_to_def updateBadgeCount_write column_value_def column_key_def)
  show ?thesis unfolding commit_def 1 using 2 by simp
qed

lemma updateBadgeCount_Inr:
  assumes "updateBadgeCount k c s = Inr s'"
  shows "\<exists>v. css_string (js_string k) = Value v"
  using assms by (cases "css_string (js_string k)") (simp_all add: updateBadgeCount_def)

lemma updateColumnCounts_Inr:
  assumes "updateColumnCounts (Some f) (Some t) s = Inr s'"
  shows "decodes s f" and "decodes s t"
proof -
  from assms obtain s1
    where s1: "updateBadgeCount (dataset (data_column_id s f)) (count_value (task_count s f)) s
               = Inr s1"
      and t: "t \<noteq> f \<Longrightarrow> updateBadgeCount (dataset (data_column_id s1 t))
                (count_value (task_count s1 t)) s1 = Inr s'"
    by (auto simp: updateColumnCounts_def split: sum.splits if_splits)
  from updateBadgeCount_Inr [OF s1] show f: "decodes s f"
    by (auto simp: decodes_def column_value_def column_key_def)
  have id1: "data_column_id s1 = data_column_id s"
    using updateBadgeCount_frame(3) [of "dataset (data_column_id s f)"
        "count_value (task_count s f)" s] s1 by simp
  show "decodes s t"
  proof (cases "t = f")
    case True
    then show ?thesis using f by simp
  next
    case False
    from updateBadgeCount_Inr [OF t [OF False]] id1 show ?thesis
      by (auto simp: decodes_def column_value_def column_key_def)
  qed
qed

text \<open>
  Once the request is in flight the two selectors have been accepted, and the commit
  returns: its undetermined branch is not taken.
\<close>

lemma commit_returns:
  assumes "requesting tok ep evt s = Inr s2"
  shows "\<exists>s'. commit evt data s2 = Inr s'"
proof -
  let ?s0 = "s\<lparr>body_classes := removeAll ''dragging-active'' (body_classes s)\<rparr>"
  from assms obtain s1
    where s1: "updateColumnCounts (Some (evt_from evt)) (Some (evt_to evt)) ?s0 = Inr s1"
    by (auto simp: requesting_cases split: sum.splits)
  note d = updateColumnCounts_Inr [OF s1]
  have id2: "data_column_id s2 = data_column_id s" by (rule requesting_frame(7) [OF assms])
  from d obtain vf vt
    where vf: "css_string (js_string (dataset (data_column_id s2 (evt_from evt)))) = Value vf"
      and vt: "css_string (js_string (dataset (data_column_id s2 (evt_to evt)))) = Value vt"
    by (auto simp: decodes_def column_value_def column_key_def id2 split: css_value.splits)
  obtain s3 where s3: "commit_from evt data s2 = Inr s3"
    by (cases "get_prop data ''from_count'' = Undefined")
       (simp_all add: commit_from_def updateBadgeCount_value [OF vf])
  have "data_column_id s3 = data_column_id s2"
    using s3 updateBadgeCount_frame(3) [of "dataset (data_column_id s2 (evt_from evt))"
        "get_prop data ''from_count''" s2]
    by (auto simp: commit_from_def split: if_splits)
  then have "css_string (js_string (dataset (data_column_id s3 (evt_to evt)))) = Value vt"
    using vt by simp
  then obtain s4 where "commit_to evt data s3 = Inr s4"
    by (cases "get_prop data ''to_count'' = Undefined")
       (simp_all add: commit_to_def updateBadgeCount_value)
  with s3 show ?thesis by (simp add: commit_def)
qed

lemma updateColumnCounts_doc:
  assumes "decodes s f" and "decodes s t" and "text_badges s"
    and "updateColumnCounts (Some f) (Some t) s = Inr s'"
  shows "doc s' = doc s \<and> text_badges s'"
proof -
  from decodes_Value [OF assms(1)] obtain vf where vf: "column_value s f = Value vf" by blast
  from decodes_Value [OF assms(2)] obtain vt where vt: "column_value s t = Value vt" by blast
  from updateColumnCounts_write [OF vf vt assms(3)] assms(3,4) show ?thesis
    by (auto simp: write_badge_same split: if_splits)
qed

lemma insert_case:
  "(case r of Some x \<Rightarrow> insertBefore p d (Some x) t | None \<Rightarrow> appendChild p d t)
   = insertBefore p d r t"
  by (cases r) (simp_all add: appendChild_def)

text \<open>
  On a plain board the counts that follow the reinsertion leave the tree as the
  reinsertion made it: \<open>revertMove\<close> returns normally with that tree.
\<close>

lemma revertMove_reinserted:
  assumes "originalColumn s = Some oc" and "draggedElement s = Some de"
    and "plain_board s evt"
    and "insertBefore oc de r (doc s) = Inr t"
    and "r = (case originalIndex s of
                None \<Rightarrow> None
              | Some i \<Rightarrow> if i < length (children (doc s) oc)
                          then Some (children (doc s) oc ! i) else None)"
  shows "\<exists>s'. revertMove evt s = Inr s' \<and> doc s' = t \<and> text_badges s'"
proof -
  let ?s1 = "s\<lparr>doc := t\<rparr>"
  have oc: "decodes s oc" "data_column_count s oc = None" "decodes s (evt_to evt)"
    "text_badges s"
    using assms(1,3) by (simp_all add: plain_board_def)
  have r: "revertMove evt s = updateColumnCounts (Some (evt_to evt)) (Some oc) ?s1"
    using assms(1,2) assms(4) [unfolded assms(5)]
    by (simp add: revertMove_def Let_def insert_case)
  have "childless (\<lambda>n. data_column_count s n \<noteq> None) t"
    by (rule childless_insertBefore [OF oc(4) [unfolded text_badges_def] _ assms(4)])
       (simp add: oc(2))
  then have h: "decodes ?s1 (evt_to evt)" "decodes ?s1 oc" "text_badges ?s1"
    using oc by (simp_all add: decodes_def column_value_def column_key_def text_badges_def)
  from updateColumnCounts_returns [OF h(1,2)] obtain s'
    where s': "updateColumnCounts (Some (evt_to evt)) (Some oc) ?s1 = Inr s'" by blast
  from updateColumnCounts_doc [OF h s'] s' r show ?thesis by simp
qed

section \<open>Rollback of a move into another column\<close>

text \<open>
  When the dragged element has left its origin column, so that the column now holds its
  former children \<open>xs\<close> without the element that was at index \<open>i\<close>, \<open>revertMove\<close>
  returns normally and the column holds \<open>xs\<close> again, in order: before the element now
  at index \<open>i\<close> when there is one, at the end otherwise.
\<close>

lemma rollback_from_other_column:
  assumes "originalColumn s = Some oc" and "draggedElement s = Some de"
    and "originalIndex s = Some i"
    and "distinct (elements (doc s))" and "oc \<in> set (elements (doc s))"
    and "can_reinsert s" and "plain_board s evt"
    and "distinct xs" and "i < length xs" and "xs ! i = de"
    and "column_children oc s = take i xs @ drop (Suc i) xs"
  shows "\<exists>s'. revertMove evt s = Inr s' \<and> column_children oc s' = xs"
proof -
  let ?cs = "column_children oc s"
  have inside: "oc \<notin> set (elements (subtree_of (doc s) de))"
    using assms(1,2,6) by (simp add: can_reinsert_def)
  have xs: "xs = take i xs @ de # drop (Suc i) xs"
    using assms(9,10) id_take_nth_drop by blast
  have "distinct (take i xs @ xs ! i # drop (Suc i) xs)"
    using assms(8) id_take_nth_drop [OF assms(9)] by simp
  then have notin: "de \<notin> set ?cs" and dcs: "distinct ?cs"
    using assms(10,11) by auto
  have len: "length ?cs = length xs - 1" using assms(9,11) by simp
  have tk: "take i ?cs = take i xs" "drop i ?cs = drop (Suc i) xs"
    using assms(9,11) by simp_all
  show ?thesis
  proof (cases "i < length ?cs")
    case True
    let ?r = "?cs ! i"
    have r: "?r \<in> set (children (doc s) oc)" "?r \<noteq> de"
      using True notin by (auto simp: column_children_def)
    have "insertBefore oc de (Some ?r) (doc s)
          = Inr (edit_kids oc (insert_kid (subtree_of (doc s) de) (Some ?r)) (detach de (doc s)))"
      using inside r by (simp add: insertBefore_def elements_def Let_def)
    from revertMove_reinserted [OF assms(1,2) assms(7) this] assms(3) True
    obtain s' where "revertMove evt s = Inr s'"
      "doc s' = edit_kids oc (insert_kid (subtree_of (doc s) de) (Some ?r)) (detach de (doc s))"
      by (auto simp: column_children_def)
    moreover have "children (edit_kids oc (insert_kid (subtree_of (doc s) de) (Some ?r))
                     (detach de (doc s))) oc = take i ?cs @ de # drop i ?cs"
      using children_after_insert [OF assms(5,4) inside, of ?r] notin
        split_at_nth [OF dcs True]
      by (simp add: column_children_def)
    ultimately show ?thesis
      using xs tk by (simp add: column_children_def)
  next
    case False
    then have i: "i = length xs - 1" "drop (Suc i) xs = []" using len assms(9) by simp_all
    have "insertBefore oc de None (doc s)
          = Inr (edit_kids oc (insert_kid (subtree_of (doc s) de) None) (detach de (doc s)))"
      using appendChild_tree [OF inside] by (simp add: appendChild_def)
    from revertMove_reinserted [OF assms(1,2) assms(7) this] assms(3) False
    obtain s' where "revertMove evt s = Inr s'"
      "doc s' = edit_kids oc (insert_kid (subtree_of (doc s) de) None) (detach de (doc s))"
      by (auto simp: column_children_def)
    then show ?thesis
      using children_after_append [OF assms(5,4) inside] notin xs i assms(11)
      by (auto simp: column_children_def)
  qed
qed

section \<open>Evaluating the examples\<close>

lemmas run_defs = onEnd_def catch_block_def revertMove_def requesting_def onStart_def
  updateColumnCounts_def updateBadgeCount_def set_textContent_def querySelector_def
  querySelectorAll_def task_count_def showNotification_def commit_from_def commit_to_def
  commit_def move_request_def js_replace_def insertBefore_def appendChild_def next_sibling_def
  children_def descendants_def subtree_of_def find_node_def elements_def dataset_def
  get_prop_def column_key_def column_value_def column_badge_def badge_of_def badge_text_def
  count_shown_def shown_and_present_def column_children_def classList_add_def count_value_def
  show_nat_digit css_string_def settle_def is_hex_def hex_val_def is_newline_def emit_def
  emit_code_def closed_def decodes_def text_badges_def childless_def plain_board_def
  can_reinsert_def failed_def refused_def distinct_keys_def issued_def final_page_def Let_def

lemmas example_defs = board0_def evt_up_def dropped_up_def evt_across_def dropped_across_def
  evt_last_def dropped_last_def locked_def moved_def moved_elsewhere_def reordered_def
  reordered_to_def stringly_def quoted_id_def escaped_id_def quoted_page_def dollar_page_def

lemma board0_elements: "elements (doc board0) = [0, 1, 2, 20, 10, 100, 101, 102, 21, 11, 103, 12, 13]"
  by (simp add: board0_def elements_def)


lemma across_plain: "plain_board dropped_across evt_across" "can_reinsert dropped_across"
  "distinct_keys dropped_across 10 11" "distinct_keys dropped_across 11 10"
  by (simp_all add: run_defs example_defs)

lemma across_reverted: "revertMove evt_across dropped_across = Inr reverted_across"
  by (simp add: reverted_across_def run_defs example_defs)

section \<open>The initializer\<close>



section \<open>Reverting without a session\<close>

text \<open>
  C9. When no dragged element or no origin column is recorded, \<open>revertMove\<close> returns
  normally with the page unchanged: no element is moved and no badge is written.
\<close>

theorem revertMove_without_session:
  "draggedElement s = None \<or> originalColumn s = None \<Longrightarrow> revertMove evt s = Inr s"
  by (auto simp: revertMove_def split: option.splits)

theorem revertMove_without_session_witness:
  "(draggedElement board0 = None \<or> originalColumn board0 = None) \<and>
   revertMove evt_up board0 = Inr board0"
proof -
  have h: "draggedElement board0 = None \<or> originalColumn board0 = None"
    by (simp add: board0_def)
  from revertMove_without_session [OF h] h show ?thesis by simp
qed

section \<open>Columns without a badge\<close>

text \<open>
  C10, as the code has it. When the column id, read as the quoted text of the selector,
  denotes a value that no element of the document has as its \<open>data-column-count\<close>,
  \<open>updateBadgeCount\<close> returns normally with the page unchanged; an id without double
  quote, backslash, line break and NUL denotes itself; hence \<open>updateColumnCounts\<close> on
  two columns whose ids denote values that no badge carries returns the page unchanged as
  well.
\<close>

theorem updateBadgeCount_without_badge:
  "(css_string (js_string columnId) = Value v \<and>
      (\<forall>n\<in>set (elements (doc s)). data_column_count s n \<noteq> Some v)
      \<longrightarrow> updateBadgeCount columnId count s = Inr s) \<and>
   (css_plain (js_string columnId)
      \<longrightarrow> css_string (js_string columnId) = Value (js_string columnId)) \<and>
   (column_value s f = Value vf \<and> column_value s t = Value vt \<and>
      (\<forall>n\<in>set (elements (doc s)). data_column_count s n \<noteq> Some vf \<and>
         data_column_count s n \<noteq> Some vt)
      \<longrightarrow> updateColumnCounts (Some f) (Some t) s = Inr s)"
proof (intro conjI impI)
  assume "css_string (js_string columnId) = Value v \<and>
      (\<forall>n\<in>set (elements (doc s)). data_column_count s n \<noteq> Some v)"
  then have "css_string (js_string columnId) = Value v" "badge_of s v = None"
    by (simp_all add: badge_of_None_iff)
  then show "updateBadgeCount columnId count s = Inr s"
    by (simp add: updateBadgeCount_value)
next
  assume "css_plain (js_string columnId)"
  then show "css_string (js_string columnId) = Value (js_string columnId)"
    by (rule css_plain_scan)
next
  assume a: "column_value s f = Value vf \<and> column_value s t = Value vt \<and>
      (\<forall>n\<in>set (elements (doc s)). data_column_count s n \<noteq> Some vf \<and>
         data_column_count s n \<noteq> Some vt)"
  then have v: "css_string (js_string (dataset (data_column_id s f))) = Value vf"
    "css_string (js_string (dataset (data_column_id s t))) = Value vt"
    by (simp_all add: column_value_def column_key_def)
  from a have "badge_of s vf = None" "badge_of s vt = None"
    by (simp_all add: badge_of_None_iff)
  then show "updateColumnCounts (Some f) (Some t) s = Inr s"
    using v by (simp add: updateColumnCounts_def updateBadgeCount_value)
qed

theorem updateBadgeCount_without_badge_witness:
  "css_string (js_string (Str ''done'')) = Value ''done'' \<and>
   badge_of board0 ''done'' = None \<and>
   updateBadgeCount (Str ''done'') (Other ''4'') board0 = Inr board0 \<and>
   css_plain (js_string (Str ''done'')) \<and>
   column_value board0 12 = Value ''done'' \<and> column_value board0 13 = Value ''later'' \<and>
   badge_of board0 ''later'' = None \<and>
   updateColumnCounts (Some 12) (Some 13) board0 = Inr board0"
proof -
  have h: "css_string (js_string (Str ''done'')) = Value ''done''"
    "css_plain (js_string (Str ''done''))"
    "column_value board0 12 = Value ''done''" "column_value board0 13 = Value ''later''"
    by (simp_all add: css_plain_def run_defs example_defs)
  have n: "\<forall>n\<in>set (elements (doc board0)). data_column_count board0 n \<noteq> Some ''done'' \<and>
         data_column_count board0 n \<noteq> Some ''later''"
    by (simp add: board0_elements) (simp add: board0_def)
  from updateBadgeCount_without_badge
    [of "Str ''done''" "''done''" board0 "Other ''4''" 12 "''done''" 13 "''later''"] h n
  show ?thesis by (simp add: badge_of_None_iff)
qed

text \<open>
  C10, as stated, fails: an id with a double quote followed by a letter makes the selector
  invalid, and \<open>updateBadgeCount\<close> throws; the id \<open>tod\o\<close> is the
  \<open>data-column-count\<close> of no element, yet it denotes \<open>todo\<close> and the badge of that
  column is rewritten.
\<close>

theorem selector_reads_id_as_css:
  "badge_of board0 quoted_id = None \<and>
   updateBadgeCount (Str quoted_id) (Other ''4'') board0 = Inl (SyntaxError, board0) \<and>
   badge_of board0 escaped_id = None \<and>
   map_sum fst (shown_and_present 10) (updateBadgeCount (Str escaped_id) (Other ''4'') board0)
     = Inr (Some ''4'', 3) \<and>
   shown_and_present 10 board0 = (Some ''3'', 3)"
  by (simp add: run_defs example_defs)

section \<open>Rollback of a move within one column\<close>

text \<open>
  C1. Task 102 sits at index 2 of column \<open>todo\<close>, is dragged to index 0 of the same
  column, and the request is rejected. The reference node \<open>revertMove\<close> picks is the
  element now at index 2, which is the one that preceded the task before the drag, so the
  task comes back at index 1: the column reads 100, 102, 101 instead of 100, 101, 102.
  The same rejection after task 100 was dragged into another column does restore the
  column.
\<close>

theorem rollback_within_column_upward:
  "column_children 10 board0 = [100, 101, 102] \<and>
   originalIndex dropped_up = Some 2 \<and>
   column_children 10 dropped_up = [102, 100, 101] \<and>
   map_sum id (column_children 10)
     (onEnd ''tok'' ''/t/{taskId}/move/'' evt_up (Rejected ''Failed to fetch'') dropped_up)
     = Inr [100, 102, 101] \<and>
   map_sum id (column_children 10)
     (onEnd ''tok'' ''/t/{taskId}/move/'' evt_across (Rejected ''Failed to fetch'') dropped_across)
     = Inr [100, 101, 102]"
  by (simp add: run_defs example_defs)

section \<open>Rollback when the recorded index is out of range\<close>



lemma requesting_doc:
  assumes "decodes s (evt_from evt)" and "decodes s (evt_to evt)" and "text_badges s"
    and "requesting tok ep evt s = Inr s2"
  shows "doc s2 = doc s" "text_badges s2"
proof -
  let ?s0 = "s\<lparr>body_classes := removeAll ''dragging-active'' (body_classes s)\<rparr>"
  have h: "decodes ?s0 (evt_from evt)" "decodes ?s0 (evt_to evt)" "text_badges ?s0"
    using assms(1-3)
    by (simp_all add: decodes_def column_value_def column_key_def text_badges_def)
  from assms(4) obtain s1
    where s1: "updateColumnCounts (Some (evt_from evt)) (Some (evt_to evt)) ?s0 = Inr s1"
      and s2: "s2 = s1\<lparr>requests := requests s1 @ [move_request tok ep evt s]\<rparr>"
    by (auto simp: requesting_cases split: sum.splits)
  note u = updateColumnCounts_doc [OF h s1]
  have a1: "doc s1 = doc s" using u by simp
  have a2: "text_badges s1" using u by (rule conjunct2)
  show "doc s2 = doc s" using a1 by (simp add: s2)
  show "text_badges s2" using a2 by (simp add: s2 text_badges_def)
qed

lemma requesting_same:
  assumes "requesting tok ep evt s = Inr s2"
  shows "column_value s2 c = column_value s c" "decodes s2 c = decodes s c"
  using requesting_frame(7) [OF assms]
  by (simp_all add: decodes_def column_value_def column_key_def)

lemma onEnd_cases:
  assumes "requesting tok ep evt s = Inr s2"
  shows "onEnd tok ep evt out s =
     (if refused out
      then catch_block evt
             (case out of
                Rejected m \<Rightarrow> m | Unparsable m \<Rightarrow> m | ParsedNull m \<Rightarrow> m
              | Parsed data \<Rightarrow>
                  js_string (if truthy (get_prop data ''error'') then get_prop data ''error''
                             else Str ''Move failed'')) s2
      else commit evt (case out of Parsed data \<Rightarrow> data | _ \<Rightarrow> []) s2)"
  using assms by (cases out) (simp_all add: onEnd_def refused_def)

lemma commit_badges:
  assumes "column_value s (evt_from evt) = Value vf" and "column_value s (evt_to evt) = Value vt"
    and "text_badges s" and "commit evt data s = Inr s'"
  shows "get_prop data ''to_count'' \<noteq> Undefined \<Longrightarrow> column_badge s (evt_to evt) \<noteq> None \<Longrightarrow>
           badge_text s' (evt_to evt) = Some (text_of (get_prop data ''to_count''))"
    and "get_prop data ''from_count'' \<noteq> Undefined \<Longrightarrow> column_badge s (evt_from evt) \<noteq> None \<Longrightarrow>
           vf \<noteq> vt \<or> get_prop data ''to_count'' = Undefined \<Longrightarrow>
           badge_text s' (evt_from evt) = Some (text_of (get_prop data ''from_count''))"
    and "get_prop data ''from_count'' = Undefined \<Longrightarrow>
           vf \<noteq> vt \<or> get_prop data ''to_count'' = Undefined \<Longrightarrow>
           badge_text s' (evt_from evt) = badge_text s (evt_from evt)"
    and "get_prop data ''to_count'' = Undefined \<Longrightarrow>
           vf \<noteq> vt \<or> get_prop data ''from_count'' = Undefined \<Longrightarrow>
           badge_text s' (evt_to evt) = badge_text s (evt_to evt)"
    and "doc s' = doc s" and "toasts s' = toasts s"
proof -
  define s3 where "s3 = (if get_prop data ''from_count'' \<noteq> Undefined
                         then write_badge vf (get_prop data ''from_count'') else id) s"
  have s': "s' = (if get_prop data ''to_count'' \<noteq> Undefined
                  then write_badge vt (get_prop data ''to_count'') else id) s3"
    using commit_write [OF assms(1-3), of data] assms(4) by (simp add: s3_def)
  have b3: "badge_of s3 v = badge_of s v" for v
    by (simp add: s3_def write_badge_same)
  have t3: "textContent s3 b = (if get_prop data ''from_count'' \<noteq> Undefined \<and> badge_of s vf = Some b
                                then text_of (get_prop data ''from_count'') else textContent s b)" for b
    by (auto simp: s3_def write_badge_text)
  have t': "textContent s' b = (if get_prop data ''to_count'' \<noteq> Undefined \<and> badge_of s vt = Some b
                                then text_of (get_prop data ''to_count'') else textContent s3 b)" for b
    by (auto simp: s' write_badge_text b3)
  have cb: "column_badge s' c = column_badge s c" for c
    by (simp add: s' s3_def write_badge_same)
  have bf: "column_badge s (evt_from evt) = badge_of s vf"
    and bt: "column_badge s (evt_to evt) = badge_of s vt"
    using assms(1,2) by (simp_all add: column_badge_def)
  have ne: "badge_of s vf \<noteq> Some b \<or> badge_of s vt \<noteq> Some b" if "vf \<noteq> vt" for b
    using badges_differ [of s vf b vt b] that by auto
  show "doc s' = doc s" "toasts s' = toasts s" by (simp_all add: s' s3_def write_badge_same)
  show "badge_text s' (evt_to evt) = Some (text_of (get_prop data ''to_count''))"
    if "get_prop data ''to_count'' \<noteq> Undefined" "column_badge s (evt_to evt) \<noteq> None"
    using that by (auto simp: badge_text_def cb bt t')
  show "badge_text s' (evt_from evt) = Some (text_of (get_prop data ''from_count''))"
    if "get_prop data ''from_count'' \<noteq> Undefined" "column_badge s (evt_from evt) \<noteq> None"
      "vf \<noteq> vt \<or> get_prop data ''to_count'' = Undefined"
    using that ne by (auto simp: badge_text_def cb bf t' t3)
  show "badge_text s' (evt_from evt) = badge_text s (evt_from evt)"
    if "get_prop data ''from_count'' = Undefined"
      "vf \<noteq> vt \<or> get_prop data ''to_count'' = Undefined"
    using that ne by (cases "badge_of s vf") (auto simp: badge_text_def cb bf t' t3)
  show "badge_text s' (evt_to evt) = badge_text s (evt_to evt)"
    if "get_prop data ''to_count'' = Undefined"
      "vf \<noteq> vt \<or> get_prop data ''from_count'' = Undefined"
    using that ne by (cases "badge_of s vt") (auto simp: badge_text_def cb bt t' t3)
qed

section \<open>When a drop is rolled back\<close>

text \<open>
  C3, as the code has it. On a plain board, with a dragged element that does not contain
  its origin column, \<open>onEnd\<close> returns normally, and it returns what the \<open>catch\<close> block
  (\<open>revertMove\<close>, then \<open>showNotification\<close>) gives for some message if and only if the
  request was refused: it was rejected, its body did not parse or was \<open>null\<close>, or the
  parsed \<open>ok\<close> is falsy. When the request was not refused, no toast is added and no
  element is moved.
\<close>

theorem rollback_iff_request_refused:
  assumes "can_reinsert s" and "plain_board s evt"
  shows "\<exists>s2 s'. requesting tok ep evt s = Inr s2 \<and> onEnd tok ep evt out s = Inr s' \<and>
           (refused out \<longleftrightarrow> (\<exists>m. onEnd tok ep evt out s = catch_block evt m s2)) \<and>
           (\<not> refused out \<longrightarrow> toasts s' = toasts s \<and> doc s' = doc s)"
proof -
  have p: "decodes s (evt_from evt)" "decodes s (evt_to evt)" "text_badges s"
    using assms(2) by (simp_all add: plain_board_def)
  from requesting_plain [OF p(1,2)] obtain s2 where s2: "requesting tok ep evt s = Inr s2"
    by blast
  note d = requesting_doc [OF p s2] and f = requesting_frame [OF s2]
  have c2: "can_reinsert s2"
    using assms(1) by (simp add: can_reinsert_def d f split: option.splits)
  have o2: "case originalColumn s2 of None \<Rightarrow> True | Some oc \<Rightarrow> decodes s2 oc"
    using assms(2) by (auto simp: plain_board_def f requesting_same [OF s2] split: option.splits)
  have "decodes s2 (evt_to evt)" using p(2) by (simp add: requesting_same [OF s2])
  from revertMove_total [OF c2 this o2] obtain r where r: "revertMove evt s2 = Inr r" by blast
  show ?thesis
  proof (cases "refused out")
    case True
    then show ?thesis
      using s2 onEnd_cases [OF s2, of out] catch_block_Inr [OF r] by auto
  next
    case False
    then obtain data where out: "out = Parsed data" by (cases out) (auto simp: refused_def)
    from decodes_Value [OF p(1)] obtain vf where vf: "column_value s2 (evt_from evt) = Value vf"
      by (auto simp: requesting_same [OF s2])
    from decodes_Value [OF p(2)] obtain vt where vt: "column_value s2 (evt_to evt) = Value vt"
      by (auto simp: requesting_same [OF s2])
    from commit_write [OF vf vt d(2), of data] obtain s'
      where s': "commit evt data s2 = Inr s'" by blast
    note cb = commit_badges(5,6) [OF vf vt d(2) s']
    have e: "onEnd tok ep evt out s = Inr s'"
      using onEnd_cases [OF s2, of out] False out s' by simp
    have "onEnd tok ep evt out s \<noteq> catch_block evt m s2" for m
    proof
      assume "onEnd tok ep evt out s = catch_block evt m s2"
      with e have "catch_block evt m s2 = Inr s'" by simp
      from catch_block_toasts [OF this] cb show False by simp
    qed
    with s2 e cb False show ?thesis by (auto simp: d f)
  qed
qed

theorem rollback_iff_request_refused_witness:
  "can_reinsert dropped_across \<and> plain_board dropped_across evt_across \<and> refused locked \<and>
   map_sum fst toasts (onEnd ''tok'' ''/t/{taskId}/move/'' evt_across locked dropped_across)
     = Inr [(1000, ''error'', ''locked'')] \<and>
   map_sum fst (column_children 10)
     (onEnd ''tok'' ''/t/{taskId}/move/'' evt_across locked dropped_across) = Inr [100, 101, 102] \<and>
   \<not> refused moved \<and>
   map_sum fst toasts (onEnd ''tok'' ''/t/{taskId}/move/'' evt_across moved dropped_across) = Inr [] \<and>
   map_sum fst (column_children 10)
     (onEnd ''tok'' ''/t/{taskId}/move/'' evt_across moved dropped_across) = Inr [101, 102]"
proof -
  have h: "refused locked" "\<not> refused moved"
    by (simp_all add: run_defs example_defs)
  have v: "map_sum fst toasts (onEnd ''tok'' ''/t/{taskId}/move/'' evt_across locked dropped_across)
     = Inr [(1000, ''error'', ''locked'')]"
    "map_sum fst (column_children 10)
     (onEnd ''tok'' ''/t/{taskId}/move/'' evt_across locked dropped_across) = Inr [100, 101, 102]"
    "map_sum fst (column_children 10)
     (onEnd ''tok'' ''/t/{taskId}/move/'' evt_across moved dropped_across) = Inr [101, 102]"
    by (simp_all add: run_defs example_defs)
  have t: "toasts dropped_across = []" by (simp add: example_defs onStart_def)
  from rollback_iff_request_refused [OF across_plain(2,1), of "''tok''" "''/t/{taskId}/move/''" moved]
    h(2) t
  have "map_sum fst toasts
          (onEnd ''tok'' ''/t/{taskId}/move/'' evt_across moved dropped_across) = Inr []"
    by auto
  with h v across_plain show ?thesis by simp
qed

text \<open>
  C3, as stated, fails: the answer \<open>{ok: "false"}\<close> has an \<open>ok\<close> that is not \<open>true\<close>,
  yet it is truthy: the drop is committed, no toast is added and the task stays in the
  destination column. And with a double quote in the id of the destination column the
  handler does not complete: the optimistic count before the \<open>try\<close> throws, and the
  SyntaxError leaves the handler with no toast shown.
\<close>

theorem truthy_ok_commits:
  "failed stringly \<and>
   map_sum fst toasts (onEnd ''tok'' ''/t/{taskId}/move/'' evt_across stringly dropped_across)
     = Inr [] \<and>
   map_sum fst (column_children 11)
     (onEnd ''tok'' ''/t/{taskId}/move/'' evt_across stringly dropped_across) = Inr [100, 103] \<and>
   map_sum (map_prod id toasts) toasts
     (onEnd ''tok'' ''/t/{taskId}/move/'' evt_across (Rejected ''Failed to fetch'') quoted_page)
     = Inl (SyntaxError, [])"
  by (simp add: run_defs example_defs)

section \<open>Lemmas on the request\<close>

lemma split_first_Some: "split_first pat s = Some (b, a) \<Longrightarrow> s = b @ pat @ a"
proof (induction s arbitrary: b)
  case Nil
  then show ?case by (simp split: if_splits)
next
  case (Cons c cs)
  show ?case
  proof (cases "take (length pat) (c # cs) = pat")
    case True
    with Cons.prems have "b = []" "a = drop (length pat) (c # cs)" by simp_all
    with True show ?thesis using append_take_drop_id [of "length pat" "c # cs"] by simp
  next
    case False
    with Cons.prems obtain b' where "split_first pat cs = Some (b', a)" "b = c # b'"
      by auto
    with Cons.IH show ?thesis by simp
  qed
qed

lemma expand_repl_plain: "CHR ''$'' \<notin> set r \<Longrightarrow> expand_repl b m a r = r"
  by (induction b m a r rule: expand_repl.induct) auto

lemma js_replace_plain:
  assumes "CHR ''$'' \<notin> set r" and "split_first pat s = Some (b, a)"
  shows "s = b @ pat @ a \<and> js_replace s pat r = b @ r @ a"
  using assms split_first_Some [OF assms(2)] by (simp add: js_replace_def expand_repl_plain)

lemma onEnd_Inr:
  assumes "onEnd tok ep evt out s = Inr s'"
  shows "\<exists>s2. requesting tok ep evt s = Inr s2"
  using assms by (cases "requesting tok ep evt s") (simp_all add: onEnd_def)

lemma map_sum_Inr: "map_sum f g r = Inr y \<Longrightarrow> \<exists>x. r = Inr x \<and> g x = y"
  by (cases r) auto

section \<open>The message of a rollback\<close>

text \<open>
  C7, as the code has it. After a rollback the notification carries: the message of the
  thrown error when the request was rejected, the body did not parse or the answer was
  \<open>null\<close>, and \<open>Could not move task\<close> only when that message is empty; the server's
  \<open>error\<close> when \<open>ok\<close> is falsy and \<open>error\<close> is a non-empty string; \<open>Move failed\<close>
  when \<open>ok\<close> is falsy and \<open>error\<close> is absent or falsy.
\<close>

theorem rollback_message:
  assumes "onEnd tok ep evt out s = Inr s'"
  shows "(out \<in> {Rejected m, Unparsable m, ParsedNull m} \<longrightarrow>
            toasts s' = toasts s @ [(next_node s, ''error'',
                                      if m \<noteq> [] then m else ''Could not move task'')]) \<and>
         (out = Parsed data \<and> \<not> truthy (get_prop data ''ok'') \<and>
            get_prop data ''error'' = Str e \<and> e \<noteq> [] \<longrightarrow>
            toasts s' = toasts s @ [(next_node s, ''error'', e)]) \<and>
         (out = Parsed data \<and> \<not> truthy (get_prop data ''ok'') \<and>
            \<not> truthy (get_prop data ''error'') \<longrightarrow>
            toasts s' = toasts s @ [(next_node s, ''error'', ''Move failed'')])"
proof -
  from onEnd_Inr [OF assms] obtain s2 where s2: "requesting tok ep evt s = Inr s2" by blast
  note f = requesting_frame(2,3) [OF s2]
  note c = onEnd_cases [OF s2, of out]
  show ?thesis
  proof (intro conjI impI)
    assume "out \<in> {Rejected m, Unparsable m, ParsedNull m}"
    then have "catch_block evt m s2 = Inr s'"
      using assms c by (auto simp: refused_def)
    from catch_block_toasts [OF this] show "toasts s' = toasts s @ [(next_node s, ''error'',
                                      if m \<noteq> [] then m else ''Could not move task'')]"
      by (simp add: f)
  next
    assume "out = Parsed data \<and> \<not> truthy (get_prop data ''ok'') \<and>
            get_prop data ''error'' = Str e \<and> e \<noteq> []"
    then have "catch_block evt e s2 = Inr s'" and "e \<noteq> []"
      using assms c by (auto simp: refused_def)
    from catch_block_toasts [OF this(1)] this(2)
    show "toasts s' = toasts s @ [(next_node s, ''error'', e)]"
      by (simp add: f)
  next
    assume "out = Parsed data \<and> \<not> truthy (get_prop data ''ok'') \<and>
            \<not> truthy (get_prop data ''error'')"
    then have "catch_block evt ''Move failed'' s2 = Inr s'"
      using assms c by (auto simp: refused_def)
    from catch_block_toasts [OF this]
    show "toasts s' = toasts s @ [(next_node s, ''error'', ''Move failed'')]"
      by (simp add: f)
  qed
qed

theorem rollback_message_witness:
  "map_sum id toasts
     (onEnd ''tok'' ''/t/{taskId}/move/'' evt_across locked dropped_across)
   = Inr [(1000, ''error'', ''locked'')] \<and>
   map_sum id toasts
     (onEnd ''tok'' ''/t/{taskId}/move/'' evt_across (Rejected []) dropped_across)
   = Inr [(1000, ''error'', ''Could not move task'')] \<and>
   map_sum id toasts
     (onEnd ''tok'' ''/t/{taskId}/move/'' evt_across (Parsed []) dropped_across)
   = Inr [(1000, ''error'', ''Move failed'')]"
proof -
  have st: "toasts dropped_across = []" "next_node dropped_across = 1000"
    by (simp_all add: example_defs onStart_def)
  have "map_sum id toasts
     (onEnd ''tok'' ''/t/{taskId}/move/'' evt_across locked dropped_across)
   = Inr [(1000, ''error'', ''locked'')]"
    by (simp add: run_defs example_defs)
  then obtain s1 where s1: "onEnd ''tok'' ''/t/{taskId}/move/'' evt_across locked dropped_across = Inr s1"
    by (auto dest: map_sum_Inr)
  have "map_sum id toasts
     (onEnd ''tok'' ''/t/{taskId}/move/'' evt_across (Rejected []) dropped_across)
   = Inr [(1000, ''error'', ''Could not move task'')]"
    by (simp add: run_defs example_defs)
  then obtain s2 where s2: "onEnd ''tok'' ''/t/{taskId}/move/'' evt_across (Rejected []) dropped_across = Inr s2"
    by (auto dest: map_sum_Inr)
  have "map_sum id toasts
     (onEnd ''tok'' ''/t/{taskId}/move/'' evt_across (Parsed []) dropped_across)
   = Inr [(1000, ''error'', ''Move failed'')]"
    by (simp add: run_defs example_defs)
  then obtain s3 where s3: "onEnd ''tok'' ''/t/{taskId}/move/'' evt_across (Parsed []) dropped_across = Inr s3"
    by (auto dest: map_sum_Inr)
  from rollback_message [OF s1, of "[]" "[(''ok'', Bool False), (''error'', Str ''locked'')]" "''locked''"]
  have a: "toasts s1 = [(1000, ''error'', ''locked'')]"
    by (simp add: locked_def get_prop_def st)
  from rollback_message [OF s2, of "[]" "[]" "[]"]
  have b: "toasts s2 = [(1000, ''error'', ''Could not move task'')]"
    by (simp add: st)
  from rollback_message [OF s3, of "[]" "[]" "[]"]
  have c: "toasts s3 = [(1000, ''error'', ''Move failed'')]"
    by (simp add: get_prop_def st)
  from s1 s2 s3 a b c show ?thesis by simp
qed

text \<open>
  C7, as stated, fails: a request rejected by the transport with the message
  \<open>Failed to fetch\<close> is notified with that message, which is neither a message of the
  server nor one of the two fallback messages of the script; a body that does not parse
  is notified with the message of the parser.
\<close>

theorem transport_message_shown:
  "map_sum id toasts
     (onEnd ''tok'' ''/t/{taskId}/move/'' evt_across (Rejected ''Failed to fetch'') dropped_across)
   = Inr [(1000, ''error'', ''Failed to fetch'')] \<and>
   ''Failed to fetch'' \<noteq> ''Could not move task'' \<and> ''Failed to fetch'' \<noteq> ''Move failed'' \<and>
   map_sum id toasts
     (onEnd ''tok'' ''/t/{taskId}/move/'' evt_across
        (Unparsable ''Unexpected token < in JSON at position 0'') dropped_across)
   = Inr [(1000, ''error'', ''Unexpected token < in JSON at position 0'')]"
  by (simp add: run_defs example_defs)

section \<open>One request per drop\<close>

text \<open>
  C4, as the code has it. When the ids of the origin and of the destination column denote
  values, so that the optimistic counts before the \<open>try\<close> return, the page \<open>onEnd\<close>
  leaves, however the request turns out and however the handler ends, holds exactly one
  request more than before. The request is a POST; its URL is what \<open>replace\<close> makes of
  the endpoint template and the task id of the dragged element: the template with its
  first \<open>{taskId}\<close> replaced by the id when the id has no dollar sign; its body is
  \<open>column_id=\<close>, the id of the destination column, \<open>&position=\<close> and the destination
  index; the token is its \<open>X-CSRFToken\<close> header.
\<close>

theorem one_move_request_per_drop:
  assumes "decodes s (evt_from evt)" and "decodes s (evt_to evt)"
  shows "requests (final_page (onEnd tok ep evt out s))
           = requests s @ [move_request tok ep evt s] \<and>
   req_method (move_request tok ep evt s) = ''POST'' \<and>
   req_url (move_request tok ep evt s)
     = js_replace ep ''{taskId}'' (js_string (dataset (data_task_id s (evt_item evt)))) \<and>
   req_body (move_request tok ep evt s)
     = ''column_id='' @ js_string (column_key s (evt_to evt))
       @ ''&position='' @ show_nat (newIndex evt) \<and>
   map_of (req_headers (move_request tok ep evt s)) ''X-CSRFToken'' = Some tok \<and>
   map_of (req_headers (move_request tok ep evt s)) ''Content-Type''
     = Some ''application/x-www-form-urlencoded'' \<and>
   (\<forall>tid b a. data_task_id s (evt_item evt) = Some tid \<and> CHR ''$'' \<notin> set tid \<and>
        split_first ''{taskId}'' ep = Some (b, a) \<longrightarrow>
      ep = b @ ''{taskId}'' @ a \<and> req_url (move_request tok ep evt s) = b @ tid @ a)"
proof -
  from requesting_plain [OF assms] obtain s2 where s2: "requesting tok ep evt s = Inr s2"
    by blast
  have once: "requests (final_page (onEnd tok ep evt out s))
                = requests s @ [move_request tok ep evt s]"
    using onEnd_cases [OF s2, of out] requesting_frame(1) [OF s2]
    by (simp add: catch_block_requests commit_requests)
  have plain: "ep = b @ ''{taskId}'' @ a \<and> req_url (move_request tok ep evt s) = b @ tid @ a"
    if "data_task_id s (evt_item evt) = Some tid" "CHR ''$'' \<notin> set tid"
      "split_first ''{taskId}'' ep = Some (b, a)" for tid b a
  proof -
    from js_replace_plain [OF that(2,3)]
    have e: "ep = b @ ''{taskId}'' @ a" and u: "js_replace ep ''{taskId}'' tid = b @ tid @ a"
      by blast+
    have "req_url (move_request tok ep evt s) = js_replace ep ''{taskId}'' tid"
      using that(1) by (simp add: move_request_def dataset_def)
    then have "req_url (move_request tok ep evt s) = b @ tid @ a"
      using u by (rule trans)
    with e show ?thesis by (rule conjI)
  qed
  show ?thesis
    using once plain by (simp add: move_request_def column_key_def)
qed

theorem one_move_request_per_drop_witness:
  "decodes dropped_across (evt_from evt_across) \<and> decodes dropped_across (evt_to evt_across) \<and>
   split_first ''{taskId}'' ''/t/{taskId}/move/'' = Some (''/t/'', ''/move/'') \<and>
   map_sum fst requests
     (onEnd ''tok'' ''/t/{taskId}/move/'' evt_across (Rejected ''Failed to fetch'') dropped_across)
   = Inr [\<lparr>req_method = ''POST'', req_url = ''/t/1/move/'',
           req_headers = [(''X-CSRFToken'', ''tok''),
                          (''Content-Type'', ''application/x-www-form-urlencoded''),
                          (''Accept'', ''application/json'')],
           req_body = ''column_id=doing&position=0''\<rparr>]"
proof -
  have h: "decodes dropped_across (evt_from evt_across)" "decodes dropped_across (evt_to evt_across)"
    by (simp_all add: run_defs example_defs)
  have sp: "split_first ''{taskId}'' ''/t/{taskId}/move/'' = Some (''/t/'', ''/move/'')"
    by simp
  have r: "requests dropped_across = []" by (simp add: example_defs onStart_def)
  have m: "move_request ''tok'' ''/t/{taskId}/move/'' evt_across dropped_across
           = \<lparr>req_method = ''POST'', req_url = ''/t/1/move/'',
           req_headers = [(''X-CSRFToken'', ''tok''),
                          (''Content-Type'', ''application/x-www-form-urlencoded''),
                          (''Accept'', ''application/json'')],
           req_body = ''column_id=doing&position=0''\<rparr>"
    by (simp add: move_request_def js_replace_def dataset_def show_nat_digit example_defs
        onStart_def)
  have "map_sum fst toasts
     (onEnd ''tok'' ''/t/{taskId}/move/'' evt_across (Rejected ''Failed to fetch'') dropped_across)
   = Inr [(1000, ''error'', ''Failed to fetch'')]"
    by (simp add: run_defs example_defs)
  then obtain s' where s': "onEnd ''tok'' ''/t/{taskId}/move/'' evt_across
                         (Rejected ''Failed to fetch'') dropped_across = Inr s'"
    by (auto dest: map_sum_Inr)
  from one_move_request_per_drop [OF h, of "''tok''" "''/t/{taskId}/move/''"
      "Rejected ''Failed to fetch''"] s'
  have "requests s' = requests dropped_across
          @ [move_request ''tok'' ''/t/{taskId}/move/'' evt_across dropped_across]"
    by simp
  with s' sp r m h show ?thesis by simp
qed

text \<open>
  C4, as stated, fails twice. With a double quote in the id of the destination column the
  optimistic count of that column throws before the \<open>try\<close>: the handler ends with a
  SyntaxError and no request issued. With the task id \<open>$&\<close>, which \<open>replace\<close> reads as
  the matched text, the URL keeps the placeholder instead of the id.
\<close>

theorem request_missing_or_url_unsubstituted:
  "map_sum (map_prod id issued) issued
     (onEnd ''tok'' ''/t/{taskId}/move/'' evt_across (Rejected ''Failed to fetch'') quoted_page)
   = Inl (SyntaxError, []) \<and>
   data_task_id dollar_page (evt_item evt_across) = Some ''$&'' \<and>
   map_sum fst issued
     (onEnd ''tok'' ''/t/{taskId}/move/'' evt_across moved dollar_page)
   = Inr [''/t/{taskId}/move/'']"
  by (simp add: run_defs example_defs)

section \<open>Counts supplied by the server\<close>

lemma requesting_badge:
  assumes "decodes s (evt_from evt)" and "decodes s (evt_to evt)" and "text_badges s"
    and "requesting tok ep evt s = Inr s2"
  shows "column_badge s2 c = column_badge s c"
  using requesting_doc(1) [OF assms] requesting_frame(8) [OF assms(4)]
    requesting_same(1) [OF assms(4), of c]
  by (simp add: column_badge_def badge_of_def querySelector_def split: css_value.splits)

text \<open>
  C2, as the code has it. On a plain board, when the answer parses with a truthy \<open>ok\<close>,
  \<open>onEnd\<close> returns normally and, for columns that have a badge: when \<open>to_count\<close> is
  present the badge of the destination column shows exactly it; when \<open>from_count\<close> is
  present the badge of the origin column shows exactly it, unless the two columns denote
  the same value, so that they share the badge, and \<open>to_count\<close> is present too: the
  badge then shows \<open>to_count\<close>, written last. An absent field writes nothing: the badge
  keeps the optimistic count unless the other field has written the shared badge.
\<close>

theorem server_counts_override:
  assumes "truthy (get_prop data ''ok'')" and "plain_board s evt"
  shows "\<exists>s2 s'. requesting tok ep evt s = Inr s2 \<and> onEnd tok ep evt (Parsed data) s = Inr s' \<and>
     (get_prop data ''to_count'' \<noteq> Undefined \<and> column_badge s (evt_to evt) \<noteq> None \<longrightarrow>
        badge_text s' (evt_to evt) = Some (text_of (get_prop data ''to_count''))) \<and>
     (get_prop data ''from_count'' \<noteq> Undefined \<and> column_badge s (evt_from evt) \<noteq> None \<and>
        (column_value s (evt_from evt) \<noteq> column_value s (evt_to evt) \<or>
         get_prop data ''to_count'' = Undefined) \<longrightarrow>
        badge_text s' (evt_from evt) = Some (text_of (get_prop data ''from_count''))) \<and>
     (get_prop data ''from_count'' = Undefined \<and>
        (column_value s (evt_from evt) \<noteq> column_value s (evt_to evt) \<or>
         get_prop data ''to_count'' = Undefined) \<longrightarrow>
        badge_text s' (evt_from evt) = badge_text s2 (evt_from evt)) \<and>
     (get_prop data ''to_count'' = Undefined \<and>
        (column_value s (evt_from evt) \<noteq> column_value s (evt_to evt) \<or>
         get_prop data ''from_count'' = Undefined) \<longrightarrow>
        badge_text s' (evt_to evt) = badge_text s2 (evt_to evt)) \<and>
     (column_value s (evt_from evt) = column_value s (evt_to evt) \<longrightarrow>
        badge_text s' (evt_from evt) = badge_text s' (evt_to evt))"
proof -
  have p: "decodes s (evt_from evt)" "decodes s (evt_to evt)" "text_badges s"
    using assms(2) by (simp_all add: plain_board_def)
  from requesting_plain [OF p(1,2)] obtain s2 where s2: "requesting tok ep evt s = Inr s2"
    by blast
  note d = requesting_doc [OF p s2] and b = requesting_badge [OF p s2]
    and v = requesting_same(1) [OF s2]
  from decodes_Value [OF p(1)] obtain vf where vf: "column_value s2 (evt_from evt) = Value vf"
    by (auto simp: v)
  from decodes_Value [OF p(2)] obtain vt where vt: "column_value s2 (evt_to evt) = Value vt"
    by (auto simp: v)
  from commit_write [OF vf vt d(2), of data] obtain s'
    where s': "commit evt data s2 = Inr s'" by blast
  have e: "onEnd tok ep evt (Parsed data) s = Inr s'"
    using onEnd_cases [OF s2, of "Parsed data"] assms(1) s' by (simp add: refused_def)
  note cb = commit_badges(1-4) [OF vf vt d(2) s', unfolded b]
  have ne: "vf \<noteq> vt" if "column_value s (evt_from evt) \<noteq> column_value s (evt_to evt)"
    using that vf vt by (auto simp: v)
  have same: "badge_text s' (evt_from evt) = badge_text s' (evt_to evt)"
    if "column_value s (evt_from evt) = column_value s (evt_to evt)"
  proof -
    have "column_value s' c = column_value s c" for c
      using commit_write [OF vf vt d(2), of data] s' v [of c]
      by (auto simp: write_badge_same split: if_splits)
    with that show ?thesis by (simp add: badge_text_def column_badge_def)
  qed
  show ?thesis
    using s2 e cb ne same by (intro exI [of _ s2] exI [of _ s']) auto
qed

theorem server_counts_override_witness:
  "truthy (get_prop [(''ok'', Bool True), (''from_count'', Other ''7''), (''to_count'', Other ''5'')]
             ''ok'') \<and>
   plain_board dropped_across evt_across \<and>
   map_sum fst (shown_and_present 10)
     (requesting ''tok'' ''/t/{taskId}/move/'' evt_across dropped_across) = Inr (Some ''2'', 2) \<and>
   map_sum fst (shown_and_present 11)
     (requesting ''tok'' ''/t/{taskId}/move/'' evt_across dropped_across) = Inr (Some ''2'', 2) \<and>
   map_sum fst (shown_and_present 10)
     (onEnd ''tok'' ''/t/{taskId}/move/'' evt_across moved dropped_across) = Inr (Some ''7'', 2) \<and>
   map_sum fst (shown_and_present 11)
     (onEnd ''tok'' ''/t/{taskId}/move/'' evt_across moved dropped_across) = Inr (Some ''5'', 2)"
proof -
  let ?data = "[(''ok'', Bool True), (''from_count'', Other ''7''), (''to_count'', Other ''5'')]"
  have h: "truthy (get_prop ?data ''ok'')" by (simp add: get_prop_def)
  have q: "map_sum fst (shown_and_present 10)
     (requesting ''tok'' ''/t/{taskId}/move/'' evt_across dropped_across) = Inr (Some ''2'', 2)"
    "map_sum fst (shown_and_present 11)
     (requesting ''tok'' ''/t/{taskId}/move/'' evt_across dropped_across) = Inr (Some ''2'', 2)"
    by (simp_all add: run_defs example_defs)
  have c: "column_badge dropped_across 10 = Some 20" "column_badge dropped_across 11 = Some 21"
    "column_value dropped_across 10 \<noteq> column_value dropped_across 11"
    "evt_from evt_across = 10" "evt_to evt_across = 11"
    by (simp_all add: run_defs example_defs)
  from server_counts_override [OF h across_plain(1), of "''tok''" "''/t/{taskId}/move/''"]
  obtain s' where s': "onEnd ''tok'' ''/t/{taskId}/move/'' evt_across (Parsed ?data) dropped_across
      = Inr s'"
    and t: "badge_text s' 11 = Some ''5''" "badge_text s' 10 = Some ''7''"
    by (auto simp: c get_prop_def)
  have n: "task_count s' 10 = 2" "task_count s' 11 = 2"
    using s' by (auto simp: run_defs example_defs)
  show ?thesis
    using h q across_plain(1) s' t n by (simp add: moved_def shown_and_present_def)
qed

text \<open>
  C2, as stated, fails for a drop within one column: origin and destination share the
  badge, which shows 3 while the request is in flight; the server answers
  \<open>from_count = 5\<close> and \<open>to_count = 9\<close>, and the badge of the origin column shows 9,
  not 5; it answers \<open>to_count = 9\<close> alone, and the badge of the origin column does not
  keep the optimistic 3.
\<close>

theorem same_column_badge_ends_at_to_count:
  "map_sum fst (shown_and_present 10)
     (requesting ''tok'' ''/t/{taskId}/move/'' evt_up dropped_up) = Inr (Some ''3'', 3) \<and>
   map_sum fst (shown_and_present 10)
     (onEnd ''tok'' ''/t/{taskId}/move/'' evt_up reordered dropped_up) = Inr (Some ''9'', 3) \<and>
   map_sum fst (shown_and_present 10)
     (onEnd ''tok'' ''/t/{taskId}/move/'' evt_up reordered_to dropped_up) = Inr (Some ''9'', 3)"
  by (simp add: run_defs example_defs)

section \<open>Badges and the number of tasks\<close>

lemma revertMove_counts:
  assumes "originalColumn s = Some oc" and "draggedElement s = Some de"
    and "can_reinsert s" and "plain_board s evt" and "distinct_keys s (evt_to evt) oc"
  shows "\<exists>s'. revertMove evt s = Inr s' \<and> count_shown s' (evt_to evt) \<and> count_shown s' oc"
proof -
  have inside: "oc \<notin> set (elements (subtree_of (doc s) de))"
    using assms(1-3) by (simp add: can_reinsert_def)
  from revertMove_session [OF assms(1,2) inside, of evt] obtain t r
    where t: "insertBefore oc de r (doc s) = Inr t"
      and r: "revertMove evt s = updateColumnCounts (Some (evt_to evt)) (Some oc) (s\<lparr>doc := t\<rparr>)"
    by blast
  let ?s1 = "s\<lparr>doc := t\<rparr>"
  have oc: "decodes s oc" "data_column_count s oc = None" "decodes s (evt_to evt)"
    "text_badges s"
    using assms(1,4) by (simp_all add: plain_board_def)
  have "childless (\<lambda>n. data_column_count s n \<noteq> None) t"
    by (rule childless_insertBefore [OF oc(4) [unfolded text_badges_def] _ t])
       (simp add: oc(2))
  then have h: "decodes ?s1 (evt_to evt)" "decodes ?s1 oc" "text_badges ?s1"
    "distinct_keys ?s1 (evt_to evt) oc"
    using oc assms(5)
    by (simp_all add: decodes_def column_value_def column_key_def text_badges_def
        distinct_keys_def)
  from updateColumnCounts_returns [OF h(1,2)] obtain s'
    where s': "updateColumnCounts (Some (evt_to evt)) (Some oc) ?s1 = Inr s'" by blast
  from updateColumnCounts_count_shown [OF h s', of "evt_to evt"]
    updateColumnCounts_count_shown [OF h s', of oc] s' r
  show ?thesis by simp
qed

text \<open>
  C5, as the code has it. On a plain board whose different columns denote different
  values: in the state in which the request is in flight, the badge of the origin column
  and the badge of the destination column, where they exist, show the number of task
  elements in their column; after \<open>revertMove\<close> has run with a recorded session, so do the
  badge of the column the task was dropped into and the badge of the origin column. After
  the commit a badge shows the count the server supplied for it, whatever the number of
  task elements; with no count supplied the commit leaves the page as it is.
\<close>

theorem badge_equals_task_count:
  "(plain_board s evt \<and> distinct_keys s (evt_from evt) (evt_to evt) \<longrightarrow>
      (\<exists>s2. requesting tok ep evt s = Inr s2 \<and>
         count_shown s2 (evt_from evt) \<and> count_shown s2 (evt_to evt))) \<and>
   (\<forall>oc de. originalColumn s = Some oc \<and> draggedElement s = Some de \<and> can_reinsert s \<and>
        plain_board s evt \<and> distinct_keys s (evt_to evt) oc \<longrightarrow>
      (\<exists>s'. revertMove evt s = Inr s' \<and> count_shown s' (evt_to evt) \<and> count_shown s' oc)) \<and>
   (plain_board s evt \<longrightarrow>
      (\<exists>s'. commit evt data s = Inr s' \<and>
         (get_prop data ''to_count'' \<noteq> Undefined \<and> column_badge s (evt_to evt) \<noteq> None \<longrightarrow>
            badge_text s' (evt_to evt) = Some (text_of (get_prop data ''to_count''))) \<and>
         (get_prop data ''from_count'' \<noteq> Undefined \<and> column_badge s (evt_from evt) \<noteq> None \<and>
            (column_value s (evt_from evt) \<noteq> column_value s (evt_to evt) \<or>
             get_prop data ''to_count'' = Undefined) \<longrightarrow>
            badge_text s' (evt_from evt) = Some (text_of (get_prop data ''from_count''))) \<and>
         (get_prop data ''from_count'' = Undefined \<and> get_prop data ''to_count'' = Undefined \<longrightarrow>
            s' = s)))"
proof (intro conjI impI allI)
  assume a: "plain_board s evt \<and> distinct_keys s (evt_from evt) (evt_to evt)"
  then have p: "decodes s (evt_from evt)" "decodes s (evt_to evt)" "text_badges s"
    "distinct_keys s (evt_from evt) (evt_to evt)"
    by (simp_all add: plain_board_def)
  from requesting_plain [OF p(1,2)] obtain s2 where s2: "requesting tok ep evt s = Inr s2"
    by blast
  from requesting_text_badges(3,4) [OF p s2] s2
  show "\<exists>s2. requesting tok ep evt s = Inr s2 \<and>
         count_shown s2 (evt_from evt) \<and> count_shown s2 (evt_to evt)"
    by blast
next
  fix oc de
  assume "originalColumn s = Some oc \<and> draggedElement s = Some de \<and> can_reinsert s \<and>
        plain_board s evt \<and> distinct_keys s (evt_to evt) oc"
  then show "\<exists>s'. revertMove evt s = Inr s' \<and> count_shown s' (evt_to evt) \<and> count_shown s' oc"
    using revertMove_counts by blast
next
  assume a: "plain_board s evt"
  then have p: "decodes s (evt_from evt)" "decodes s (evt_to evt)" "text_badges s"
    by (simp_all add: plain_board_def)
  from decodes_Value [OF p(1)] obtain vf where vf: "column_value s (evt_from evt) = Value vf"
    by blast
  from decodes_Value [OF p(2)] obtain vt where vt: "column_value s (evt_to evt) = Value vt"
    by blast
  from commit_write [OF vf vt p(3), of data] obtain s'
    where s': "commit evt data s = Inr s'" by blast
  note cb = commit_badges(1,2) [OF vf vt p(3) s']
  have ne: "vf \<noteq> vt" if "column_value s (evt_from evt) \<noteq> column_value s (evt_to evt)"
    using that vf vt by auto
  have idle: "s' = s"
    if "get_prop data ''from_count'' = Undefined" "get_prop data ''to_count'' = Undefined"
    using commit_write [OF vf vt p(3), of data] s' that by simp
  show "\<exists>s'. commit evt data s = Inr s' \<and>
         (get_prop data ''to_count'' \<noteq> Undefined \<and> column_badge s (evt_to evt) \<noteq> None \<longrightarrow>
            badge_text s' (evt_to evt) = Some (text_of (get_prop data ''to_count''))) \<and>
         (get_prop data ''from_count'' \<noteq> Undefined \<and> column_badge s (evt_from evt) \<noteq> None \<and>
            (column_value s (evt_from evt) \<noteq> column_value s (evt_to evt) \<or>
             get_prop data ''to_count'' = Undefined) \<longrightarrow>
            badge_text s' (evt_from evt) = Some (text_of (get_prop data ''from_count''))) \<and>
         (get_prop data ''from_count'' = Undefined \<and> get_prop data ''to_count'' = Undefined \<longrightarrow>
            s' = s)"
    using s' cb ne idle by (intro exI [of _ s']) auto
qed

theorem badge_equals_task_count_witness:
  "plain_board dropped_across evt_across \<and>
   distinct_keys dropped_across (evt_from evt_across) (evt_to evt_across) \<and>
   map_sum fst (shown_and_present 10)
     (requesting ''tok'' ''/t/{taskId}/move/'' evt_across dropped_across) = Inr (Some ''2'', 2) \<and>
   map_sum fst (shown_and_present 11)
     (requesting ''tok'' ''/t/{taskId}/move/'' evt_across dropped_across) = Inr (Some ''2'', 2) \<and>
   can_reinsert dropped_across \<and>
   revertMove evt_across dropped_across = Inr reverted_across \<and>
   count_shown reverted_across 11 \<and> count_shown reverted_across 10 \<and>
   shown_and_present 10 reverted_across = (Some ''3'', 3) \<and>
   shown_and_present 11 reverted_across = (Some ''1'', 1) \<and>
   map_sum fst (shown_and_present 10)
     (commit evt_across [(''from_count'', Other ''7'')] dropped_across) = Inr (Some ''7'', 2)"
proof -
  have e: "evt_from evt_across = 10" "evt_to evt_across = 11" by (simp_all add: evt_across_def)
  have s: "originalColumn dropped_across = Some 10" "draggedElement dropped_across = Some 100"
    by (simp_all add: example_defs onStart_def)
  have v: "map_sum fst (shown_and_present 10)
     (requesting ''tok'' ''/t/{taskId}/move/'' evt_across dropped_across) = Inr (Some ''2'', 2)"
    "map_sum fst (shown_and_present 11)
     (requesting ''tok'' ''/t/{taskId}/move/'' evt_across dropped_across) = Inr (Some ''2'', 2)"
    "shown_and_present 10 reverted_across = (Some ''3'', 3)"
    "shown_and_present 11 reverted_across = (Some ''1'', 1)"
    "map_sum fst (shown_and_present 10)
     (commit evt_across [(''from_count'', Other ''7'')] dropped_across) = Inr (Some ''7'', 2)"
    by (simp_all add: reverted_across_def run_defs example_defs)
  from badge_equals_task_count [of dropped_across evt_across "''tok''" "''/t/{taskId}/move/''" "[]"]
    across_plain s across_reverted
  have "count_shown reverted_across 11 \<and> count_shown reverted_across 10"
    unfolding e by auto
  with v across_plain across_reverted show ?thesis by (simp add: e)
qed

text \<open>
  C5, as stated, fails after the commit of server counts: the server answers
  \<open>from_count = 7\<close> while two task elements are in the origin column, and the badge
  shows 7.
\<close>

theorem badge_differs_after_commit:
  "map_sum id (shown_and_present 10)
     (onEnd ''tok'' ''/t/{taskId}/move/'' evt_across moved_elsewhere dropped_across)
   = Inr (Some ''7'', 2)"
  by (simp add: run_defs example_defs)

end
